theory Spec2Isabelle
  imports Complex_Main "HOL-Library.Product_Lexorder" "HOL-Library.Sublist"
begin

section \<open>Errors\<close>

text \<open>
  Python exceptions are values. A function that can raise returns \<open>py_error + 'a\<close>,
  with \<open>Inl\<close> the exception that propagates.
\<close>

datatype py_error = ValueError | KeyError | IndexError | NameError | OSError | RuntimeError

section \<open>Volumes and slice selection\<close>

text \<open>
  A volume is the array returned by \<open>img.get_fdata()\<close>: a shape \<open>(dim_x, dim_y, dim_z)\<close>
  and one intensity per index triple. Intensities are modelled as real numbers, the usual
  idealisation of float64 (no rounding, no NaN); the index arithmetic of
  \<open>np.linspace\<close> is modelled in exact real arithmetic as well.
\<close>

record volume =
  dim_x :: nat
  dim_y :: nat
  dim_z :: nat
  voxel :: "nat \<Rightarrow> nat \<Rightarrow> nat \<Rightarrow> real"

text \<open>\<open>np.sum(data, axis=(0, 1))\<close>: one sum per z-index, over all x and y.\<close>

definition np_sum_axis01 :: "volume \<Rightarrow> real list" where
  "np_sum_axis01 data =
     map (\<lambda>z. sum_list (map (\<lambda>x. sum_list (map (\<lambda>y. voxel data x y z) [0..<dim_y data]))
                              [0..<dim_x data]))
         [0..<dim_z data]"

text \<open>
  \<open>np.argmax\<close>: a left-to-right scan that keeps the index of the largest value seen so
  far and replaces it only by a strictly larger one; on an empty array it raises ValueError.
\<close>

fun argmax_scan :: "nat \<Rightarrow> nat \<Rightarrow> real \<Rightarrow> real list \<Rightarrow> nat" where
  "argmax_scan i b m [] = b"
| "argmax_scan i b m (x # xs) =
     (if m < x then argmax_scan (Suc i) i x xs else argmax_scan (Suc i) b m xs)"

definition np_argmax :: "real list \<Rightarrow> py_error + nat" where
  "np_argmax a = (case a of [] \<Rightarrow> Inl ValueError | x # xs \<Rightarrow> Inr (argmax_scan 1 0 x xs))"

text \<open>
  \<open>np.linspace(start, stop, num, dtype=int)\<close>, following numpy's implementation:
  \<open>y = arange(0, num)\<close>; with \<open>div = num - 1\<close> and \<open>delta = stop - start\<close>, if
  \<open>div > 0\<close> then \<open>step = delta / div\<close> and \<open>y = y * step\<close> (or \<open>y / div * delta\<close> when the
  step is zero), otherwise \<open>y = y * delta\<close>; then \<open>y += start\<close>; the last element is set to
  \<open>stop\<close> when \<open>num > 1\<close>; the integer dtype takes the floor. A negative \<open>num\<close> raises
  ValueError.
\<close>

definition np_linspace_int :: "int \<Rightarrow> int \<Rightarrow> int \<Rightarrow> py_error + int list" where
  "np_linspace_int start stop num =
     (if num < 0 then Inl ValueError
      else
        let dv = num - 1;
            delta = real_of_int stop - real_of_int start;
            y = map real [0..<nat num];
            y1 = (if dv > 0
                  then (let step = delta / real_of_int dv
                        in if step = 0 then map (\<lambda>t. t / real_of_int dv * delta) y
                           else map (\<lambda>t. t * step) y)
                  else map (\<lambda>t. t * delta) y);
            y2 = map (\<lambda>t. t + real_of_int start) y1;
            y3 = (if num > 1 then y2[nat num - 1 := real_of_int stop] else y2)
        in Inr (map floor y3))"

text \<open>\<open>np.unique\<close>: sort, then keep an element only where it differs from its predecessor.\<close>

definition np_unique :: "int list \<Rightarrow> int list" where
  "np_unique a = remdups_adj (sort a)"

definition start_idx :: "int \<Rightarrow> int \<Rightarrow> int" where
  "start_idx best_idx num_slices = max 0 (best_idx - num_slices * 5)"

definition end_idx :: "int \<Rightarrow> int \<Rightarrow> int \<Rightarrow> int" where
  "end_idx zsize best_idx num_slices = min (zsize - 1) (best_idx + num_slices * 5)"

text \<open>\<open>find_slices_of_interest\<close> of the initial pipeline.\<close>

definition find_slices_of_interest :: "volume \<Rightarrow> int \<Rightarrow> py_error + int list" where
  "find_slices_of_interest data num_slices =
     (let slice_sums = np_sum_axis01 data
      in case np_argmax slice_sums of
           Inl e \<Rightarrow> Inl e
         | Inr best_idx \<Rightarrow>
             (let zsize = int (dim_z data)
              in case np_linspace_int (start_idx (int best_idx) num_slices)
                        (end_idx zsize (int best_idx) num_slices) num_slices of
                   Inl e \<Rightarrow> Inl e
                 | Inr slice_indices \<Rightarrow> Inr (np_unique slice_indices)))"

text \<open>
  \<open>find_slices_of_interest\<close> of the final pipeline, transcribed from its own source text:
  the margin, the size and the two bounds are computed one after the other, and the
  result of \<open>np.unique\<close> is stored before it is returned.
\<close>

definition find_slices_of_interest_final :: "volume \<Rightarrow> int \<Rightarrow> py_error + int list" where
  "find_slices_of_interest_final data num_slices =
     (let slice_sums = np_sum_axis01 data
      in case np_argmax slice_sums of
           Inl e \<Rightarrow> Inl e
         | Inr best_idx \<Rightarrow>
             (let margin = num_slices * 5;
                  zsize = int (dim_z data);
                  start_i = max 0 (int best_idx - margin);
                  end_i = min (zsize - 1) (int best_idx + margin)
              in case np_linspace_int start_i end_i num_slices of
                   Inl e \<Rightarrow> Inl e
                 | Inr slice_indices \<Rightarrow>
                     (let slice_indices' = np_unique slice_indices in Inr slice_indices')))"

text \<open>
  The \<open>i\<close>-th value of \<open>np.linspace(a, b, num, dtype=int)\<close> in closed form, used to
  reason about the result (see \<open>np_linspace_int_points\<close>).
\<close>

definition linspace_point :: "int \<Rightarrow> int \<Rightarrow> int \<Rightarrow> nat \<Rightarrow> int" where
  "linspace_point a b num i = (if num = 1 then a else a + (int i * (b - a)) div (num - 1))"


text \<open>Two small volumes used to run the functions on concrete inputs.\<close>

definition example_volume :: volume where
  "example_volume =
     \<lparr>dim_x = 1, dim_y = 1, dim_z = 4, voxel = (\<lambda>x y z. if z = 2 then 5 else 1)\<rparr>"

definition single_slice_volume :: volume where
  "single_slice_volume = \<lparr>dim_x = 2, dim_y = 1, dim_z = 1, voxel = (\<lambda>x y z. 7)\<rparr>"

section \<open>Slice selection as the specification words it\<close>






section \<open>Scan keys and report grouping (\<open>generate_in_memory_pages\<close>)\<close>

text \<open>
  File names are strings of 8-bit characters. Python's \<open>x in s\<close>, \<open>s.startswith(x)\<close> and
  \<open>s.endswith(x)\<close> on strings are \<open>sublist x s\<close>, \<open>prefix x s\<close> and \<open>suffix x s\<close>.

  With \<open>re.IGNORECASE\<close> a literal letter of the pattern matches both of its cases; the
  literals of the pattern are ASCII, so only the ASCII letters are folded here.
\<close>

definition lower_ascii :: "char \<Rightarrow> char" where
  "lower_ascii c =
     (case map_of (zip ''ABCDEFGHIJKLMNOPQRSTUVWXYZ'' ''abcdefghijklmnopqrstuvwxyz'') c of
        Some l \<Rightarrow> l
      | None \<Rightarrow> c)"

text \<open>
  A literal of the pattern matched case-insensitively at the start of the input: the text
  matched (in the case of the input) and the rest.
\<close>

fun match_literal :: "string \<Rightarrow> string \<Rightarrow> (string \<times> string) option" where
  "match_literal [] s = Some ([], s)"
| "match_literal (p # ps) [] = None"
| "match_literal (p # ps) (c # cs) =
     (if lower_ascii c = lower_ascii p
      then (case match_literal ps cs of None \<Rightarrow> None | Some (m, r) \<Rightarrow> Some (c # m, r))
      else None)"

text \<open>
  \<open>lit[^_]+\<close> at the start of the input: the literal, then the longest non-empty run of
  characters other than the underscore. Everything after such a segment in the pattern is
  optional, so the greedy choice is the one the matcher returns.
\<close>

definition match_segment :: "string \<Rightarrow> string \<Rightarrow> (string \<times> string) option" where
  "match_segment lit s =
     (case match_literal lit s of
        None \<Rightarrow> None
      | Some (m, r) \<Rightarrow>
          (let tok = takeWhile (\<lambda>c. c \<noteq> CHR ''_'') r
           in if tok = [] then None else Some (m @ tok, dropWhile (\<lambda>c. c \<noteq> CHR ''_'') r)))"

text \<open>\<open>(?:_(lit[^_]+))?\<close>: the group if it matches here, otherwise nothing is consumed.\<close>

definition match_optional_segment :: "string \<Rightarrow> string \<Rightarrow> string option \<times> string" where
  "match_optional_segment lit s =
     (case s of
        [] \<Rightarrow> (None, s)
      | c # cs \<Rightarrow>
          (if c = CHR ''_''
           then (case match_segment lit cs of None \<Rightarrow> (None, s) | Some (g, r) \<Rightarrow> (Some g, r))
           else (None, s)))"

text \<open>The whole pattern \<open>(sub-[^_]+)(?:_(ses-[^_]+))?(?:_(run-[^_]+))?\<close> at the start of the input.\<close>

definition pattern_match_here :: "string \<Rightarrow> (string \<times> string option \<times> string option) option" where
  "pattern_match_here s =
     (case match_segment ''sub-'' s of
        None \<Rightarrow> None
      | Some (g1, r1) \<Rightarrow>
          (let (g2, r2) = match_optional_segment ''ses-'' r1;
               (g3, r3) = match_optional_segment ''run-'' r2
           in Some (g1, g2, g3)))"

text \<open>\<open>pattern.search\<close>: the match at the leftmost position that has one.\<close>

fun pattern_search :: "string \<Rightarrow> (string \<times> string option \<times> string option) option" where
  "pattern_search [] = pattern_match_here []"
| "pattern_search (c # cs) =
     (case pattern_match_here (c # cs) of Some m \<Rightarrow> Some m | None \<Rightarrow> pattern_search cs)"

type_synonym scan_key = "string \<times> string \<times> string"

text \<open>
  The key of a file name: \<open>subject = match.group(1)\<close>, \<open>session = match.group(2)\<close> or
  \<open>'ses-01'\<close>, \<open>run = match.group(3)\<close> or \<open>''\<close>; \<open>None\<close> when the pattern does not match.
\<close>

definition scan_key_of :: "string \<Rightarrow> scan_key option" where
  "scan_key_of fname =
     (case pattern_search fname of
        None \<Rightarrow> None
      | Some (g1, g2, g3) \<Rightarrow>
          Some (g1, (case g2 of Some s \<Rightarrow> s | None \<Rightarrow> ''ses-01''),
                    (case g3 of Some r \<Rightarrow> r | None \<Rightarrow> [])))"

record artifacts =
  orig :: "string option"
  strip :: "string option"
  dens :: "string option"
  stats :: "string option"

definition no_artifacts :: artifacts where
  "no_artifacts = \<lparr>orig = None, strip = None, dens = None, stats = None\<rparr>"

text \<open>\<open>os.path.join(dirpath, fname)\<close> on POSIX.\<close>

definition os_path_join :: "string \<Rightarrow> string \<Rightarrow> string" where
  "os_path_join a b =
     (if prefix ''/'' b then b
      else if a = [] \<or> suffix ''/'' a then a @ b
      else a @ ''/'' @ b)"

definition relevant_file :: "string \<Rightarrow> bool" where
  "relevant_file fname =
     (sublist ''_original_slices.png'' fname \<or> sublist ''_skullstripped_slices.png'' fname \<or>
      sublist ''_density.svg'' fname \<or> sublist ''_stats.csv'' fname \<or>
      sublist ''T1w.nii.gz'' fname)"

text \<open>
  The dictionary \<open>data_map\<close> keeps its keys in insertion order; it is an association list
  with one entry per key. \<open>assign_slot\<close> is the \<open>if/elif\<close> chain on the suffix of the name.
\<close>

type_synonym data_map = "(scan_key \<times> artifacts) list"

definition assign_slot :: "string \<Rightarrow> string \<Rightarrow> artifacts \<Rightarrow> artifacts" where
  "assign_slot fname fullpath a =
     (if suffix ''_original_slices.png'' fname then a\<lparr>orig := Some fullpath\<rparr>
      else if suffix ''_skullstripped_slices.png'' fname then a\<lparr>strip := Some fullpath\<rparr>
      else if suffix ''_density.svg'' fname then a\<lparr>dens := Some fullpath\<rparr>
      else if suffix ''_stats.csv'' fname then a\<lparr>stats := Some fullpath\<rparr>
      else a)"

definition group_file :: "string \<Rightarrow> data_map \<Rightarrow> string \<Rightarrow> data_map" where
  "group_file dirpath dm fname =
     (let fullpath = os_path_join dirpath fname
      in if \<not> relevant_file fname then dm
         else (case scan_key_of fname of
                 None \<Rightarrow> dm
               | Some key \<Rightarrow>
                   (let dm1 = (if key \<in> set (map fst dm) then dm else dm @ [(key, no_artifacts)])
                    in map (\<lambda>(k, a). if k = key then (k, assign_slot fname fullpath a) else (k, a))
                         dm1)))"

text \<open>
  The result of \<open>os.walk\<close> is a list of \<open>(dirpath, dirnames, filenames)\<close> triples, in the
  order the directories are visited.
\<close>

type_synonym walk = "(string \<times> string list \<times> string list) list"

definition group_walk :: "walk \<Rightarrow> data_map" where
  "group_walk w = foldl (\<lambda>dm (dirpath, dirnames, filenames). foldl (group_file dirpath) dm filenames) [] w"

text \<open>
  \<open>parse_int\<close>: \<open>re.search(r'(\d+)', s)\<close> finds the first digit and takes the digits that
  follow it; \<open>int\<close> reads them in base ten; without a digit the result is 0.
\<close>

definition is_digit :: "char \<Rightarrow> bool" where
  "is_digit c = (let n = (of_char c :: nat) in 48 \<le> n \<and> n \<le> 57)"

definition int_of_digits :: "string \<Rightarrow> nat" where
  "int_of_digits ds = foldl (\<lambda>n c. 10 * n + ((of_char c :: nat) - 48)) 0 ds"

definition parse_int :: "string \<Rightarrow> nat" where
  "parse_int s =
     (case dropWhile (\<lambda>c. \<not> is_digit c) s of
        [] \<Rightarrow> 0
      | d # ds \<Rightarrow> int_of_digits (takeWhile is_digit (d # ds)))"

text \<open>
  \<open>s.replace(old, "")\<close>: every occurrence of \<open>old\<close>, found from left to right without
  overlap, is deleted.
\<close>

function str_delete :: "string \<Rightarrow> string \<Rightarrow> string" where
  "str_delete old s =
     (if old = [] then s
      else if prefix old s then str_delete old (drop (length old) s)
      else (case s of [] \<Rightarrow> [] | c # cs \<Rightarrow> c # str_delete old cs))"
  by pat_completeness auto
termination
  by (relation "measure (\<lambda>(old, s). length s)") (auto simp: prefix_def)

declare str_delete.simps [simp del]

definition numeric_sort_key :: "scan_key \<Rightarrow> nat \<times> nat \<times> nat" where
  "numeric_sort_key k =
     (case k of (subject, session, run) \<Rightarrow>
        (parse_int (str_delete ''sub-'' subject),
         parse_int (str_delete ''ses-'' session),
         parse_int (str_delete ''run-'' run)))"

text \<open>
  \<open>sorted(data_map.keys(), key=numeric_sort_key)\<close>: a stable sort; the key tuples are
  compared lexicographically. One page is built per key, in this order.
\<close>

definition sorted_keys :: "data_map \<Rightarrow> scan_key list" where
  "sorted_keys dm = sort_key numeric_sort_key (map fst dm)"

definition grouped_pages :: "walk \<Rightarrow> (nat \<times> scan_key \<times> artifacts option) list" where
  "grouped_pages w =
     (let dm = group_walk w
      in map (\<lambda>(idx, key). (idx, key, map_of dm key)) (enumerate 0 (sorted_keys dm)))"

text \<open>
  What the specification says a key is, stated without the matcher. A \<open>lit\<close>-segment is
  the literal in any mix of cases followed by a token, a non-empty run of characters other
  than the underscore; the token is a whole run when what follows is empty or starts with
  an underscore.
\<close>

definition is_segment :: "string \<Rightarrow> string \<Rightarrow> bool" where
  "is_segment lit seg \<longleftrightarrow>
     (\<exists>p tok. seg = p @ tok \<and> map lower_ascii p = map lower_ascii lit \<and>
              tok \<noteq> [] \<and> CHR ''_'' \<notin> set tok)"

definition token_ends :: "string \<Rightarrow> bool" where
  "token_ends rest \<longleftrightarrow> (case rest of [] \<Rightarrow> True | c # cs \<Rightarrow> c = CHR ''_'')"

definition has_segment :: "string \<Rightarrow> string \<Rightarrow> bool" where
  "has_segment lit s \<longleftrightarrow> (\<exists>seg r. s = seg @ r \<and> is_segment lit seg)"

text \<open>
  An optional segment after an underscore: either it is there, and its value is the whole
  segment, or no such segment starts there, and the value is the default.
\<close>

definition optional_segment_spec :: "string \<Rightarrow> string \<Rightarrow> string \<Rightarrow> string \<Rightarrow> string \<Rightarrow> bool" where
  "optional_segment_spec lit dflt rest val rest' \<longleftrightarrow>
     (rest = CHR ''_'' # val @ rest' \<and> is_segment lit val \<and> token_ends rest') \<or>
     (\<not> (\<exists>r. rest = CHR ''_'' # r \<and> has_segment lit r) \<and> val = dflt \<and> rest' = rest)"

definition key_spec :: "string \<Rightarrow> scan_key \<Rightarrow> bool" where
  "key_spec fname k \<longleftrightarrow>
     (case k of (subject, session, run) \<Rightarrow>
        \<exists>pre rest1 rest2 rest3.
          fname = pre @ subject @ rest1 \<and> is_segment ''sub-'' subject \<and> token_ends rest1 \<and>
          (\<forall>pre' s'. fname = pre' @ s' \<and> has_segment ''sub-'' s' \<longrightarrow> length pre \<le> length pre') \<and>
          optional_segment_spec ''ses-'' ''ses-01'' rest1 session rest2 \<and>
          optional_segment_spec ''run-'' [] rest2 run rest3)"




section \<open>The review ledger (\<open>update_csv\<close>)\<close>

text \<open>
  The ledger file holds rows with the columns \<open>filename\<close>, \<open>status\<close>, \<open>notes\<close>; the file
  may not exist yet (\<open>None\<close>). \<open>update_csv\<close> reads all rows, changes the first row whose
  \<open>filename\<close> is the given one or appends a new row, and writes all rows back. Its
  \<open>status\<close> argument is either a plain string or a dictionary with the key \<open>status\<close> and,
  optionally, \<open>notes\<close>; reading a missing \<open>status\<close> key raises KeyError before the file is
  rewritten.
\<close>

record row =
  row_filename :: string
  row_status :: string
  row_notes :: string

datatype status_arg = Str string | Dict "string \<rightharpoonup> string"

type_synonym ledger = "row list option"

text \<open>The body of \<open>for r in rows\<close> for a row whose file name matches.\<close>

definition update_row :: "status_arg \<Rightarrow> row \<Rightarrow> py_error + row" where
  "update_row st r =
     (case st of
        Str s \<Rightarrow> Inr (r\<lparr>row_status := s\<rparr>)
      | Dict d \<Rightarrow>
          (let r1 = r\<lparr>row_notes := (case d ''notes'' of Some n \<Rightarrow> n | None \<Rightarrow> row_notes r)\<rparr>
           in case d ''status'' of None \<Rightarrow> Inl KeyError | Some s \<Rightarrow> Inr (r1\<lparr>row_status := s\<rparr>)))"

text \<open>The loop with its \<open>break\<close>: the flag \<open>found\<close> and the rows after the loop.\<close>

fun update_rows :: "string \<Rightarrow> status_arg \<Rightarrow> row list \<Rightarrow> py_error + (bool \<times> row list)" where
  "update_rows fn st [] = Inr (False, [])"
| "update_rows fn st (r # rs) =
     (if row_filename r = fn
      then (case update_row st r of Inl e \<Rightarrow> Inl e | Inr r' \<Rightarrow> Inr (True, r' # rs))
      else (case update_rows fn st rs of
              Inl e \<Rightarrow> Inl e
            | Inr (found, rs') \<Rightarrow> Inr (found, r # rs')))"

definition new_row :: "string \<Rightarrow> status_arg \<Rightarrow> py_error + row" where
  "new_row fn st =
     (case st of
        Str s \<Rightarrow> Inr \<lparr>row_filename = fn, row_status = s, row_notes = []\<rparr>
      | Dict d \<Rightarrow>
          (case d ''status'' of
             None \<Rightarrow> Inl KeyError
           | Some s \<Rightarrow>
               Inr \<lparr>row_filename = fn, row_status = s,
                    row_notes = (case d ''notes'' of Some n \<Rightarrow> n | None \<Rightarrow> [])\<rparr>))"

definition update_csv :: "ledger \<Rightarrow> string \<Rightarrow> status_arg \<Rightarrow> py_error + ledger" where
  "update_csv csv fn st =
     (let rows = (case csv of None \<Rightarrow> [] | Some rs \<Rightarrow> rs)
      in case update_rows fn st rows of
           Inl e \<Rightarrow> Inl e
         | Inr (found, rows') \<Rightarrow>
             (if found then Inr (Some rows')
              else (case new_row fn st of
                      Inl e \<Rightarrow> Inl e
                    | Inr r \<Rightarrow> Inr (Some (rows' @ [r])))))"

text \<open>
  The ledger operation of the specification, as \<open>qc_update\<close> calls it:
  \<open>update_csv(MASTER_CSV, filename, {"status": status, "notes": notes})\<close>.
\<close>

definition upsert :: "ledger \<Rightarrow> string \<Rightarrow> string \<Rightarrow> string \<Rightarrow> py_error + ledger" where
  "upsert csv fn s n = update_csv csv fn (Dict [''status'' \<mapsto> s, ''notes'' \<mapsto> n])"

definition ledger_rows :: "ledger \<Rightarrow> row list" where
  "ledger_rows csv = (case csv of None \<Rightarrow> [] | Some rs \<Rightarrow> rs)"

text \<open>The data model's invariant: at most one entry per file name.\<close>

definition unique_keys :: "ledger \<Rightarrow> bool" where
  "unique_keys csv = distinct (map row_filename (ledger_rows csv))"

section \<open>Rendering a statistics record (\<open>embed_stats\<close>)\<close>






definition os_path_basename :: "string \<Rightarrow> string" where
  "os_path_basename p = rev (takeWhile (\<lambda>c. c \<noteq> CHR ''/'') (rev p))"

















section \<open>The two pipelines\<close>

text \<open>
  What a run does to the outside world is recorded as a trace of events, in order: the log
  lines, the directories made and the files written. \<open>Processing p\<close> is the log line
  \<open>Processing p ...\<close> with which \<open>process_scan_initial\<close> and \<open>process_scan_final\<close> start.
\<close>

datatype event =
    Processing string
  | LogInfo string
  | LogWarning string
  | LogError string
  | MakeDirs string
  | SavePng string
  | WriteStatsCsv string
  | SaveDensitySvg string

type_synonym trace = "event list"

record intensity_stats =
  st_mean :: real
  st_median :: real
  st_max :: real
  st_min :: real
  st_std :: real

text \<open>
  The collaborators outside the repository, each with the exception it may raise:
  loading a volume (\<open>nib.load(p).get_fdata()\<close>), the five numpy statistics, \<open>os.makedirs\<close>,
  the plotting calls, \<open>DataFrame.to_csv\<close>, \<open>os.path.relpath\<close>, \<open>os.path.exists\<close>, and the
  outcome of the two Docker helpers, which catch their own exceptions.
\<close>

record scan_env =
  nib_load :: "string \<Rightarrow> py_error + volume"
  np_stats :: "volume \<Rightarrow> py_error + intensity_stats"
  makedirs :: "string \<Rightarrow> py_error option"
  plot_slices :: "volume \<Rightarrow> int list \<Rightarrow> string \<Rightarrow> py_error option"
  to_csv :: "intensity_stats \<Rightarrow> string \<Rightarrow> py_error option"
  density_plot :: "volume \<Rightarrow> string \<Rightarrow> py_error option"
  relpath :: "string \<Rightarrow> string \<Rightarrow> string"
  path_exists :: "string \<Rightarrow> bool"
  ensure_docker_image :: bool
  process_skull_stripping :: "string \<Rightarrow> string option"
  error_text :: "py_error \<Rightarrow> string"

definition os_path_dirname :: "string \<Rightarrow> string" where
  "os_path_dirname p =
     (let head = rev (dropWhile (\<lambda>c. c \<noteq> CHR ''/'') (rev p))
      in if head \<noteq> [] \<and> \<not> list_all (\<lambda>c. c = CHR ''/'') head
         then rev (dropWhile (\<lambda>c. c = CHR ''/'') (rev head))
         else head)"

text \<open>\<open>os.path.splitext(p)[0]\<close> for a name without directory part.\<close>

definition splitext_root :: "string \<Rightarrow> string" where
  "splitext_root b =
     (if CHR ''.'' \<in> set (dropWhile (\<lambda>c. c = CHR ''.'') b)
      then rev (tl (dropWhile (\<lambda>c. c \<noteq> CHR ''.'') (rev b)))
      else b)"

definition strip_nii_gz :: "string \<Rightarrow> string" where
  "strip_nii_gz basename =
     (if suffix ''.nii.gz'' basename then take (length basename - 7) basename
      else if suffix ''.nii'' basename then take (length basename - 4) basename
      else basename)"

definition results_dir_of :: "scan_env \<Rightarrow> string \<Rightarrow> string \<Rightarrow> string" where
  "results_dir_of env bids_root filepath =
     os_path_join (os_path_join bids_root ''results'') (relpath env (os_path_dirname filepath) bids_root)"

text \<open>
  \<open>analyze_nifti\<close>: the body of the \<open>try\<close> loads the volume and computes the statistics;
  the handler logs and returns the empty dictionary (\<open>None\<close>).
\<close>

definition analyze_body :: "scan_env \<Rightarrow> string \<Rightarrow> py_error + intensity_stats" where
  "analyze_body env filepath =
     (case nib_load env filepath of Inl e \<Rightarrow> Inl e | Inr data \<Rightarrow> np_stats env data)"

definition analyze_nifti :: "scan_env \<Rightarrow> string \<Rightarrow> trace \<Rightarrow> (py_error + intensity_stats option) \<times> trace" where
  "analyze_nifti env filepath tr =
     (case analyze_body env filepath of
        Inr st \<Rightarrow> (Inr (Some st), tr)
      | Inl e \<Rightarrow>
          (Inr None,
           tr @ [LogError (''analyze_nifti failed for '' @ filepath @ '': '' @ error_text env e)]))"

text \<open>
  \<open>process_scan_initial\<close>. The result is the exception that left the function, if any, and
  the trace.
\<close>

definition stats_and_density :: "scan_env \<Rightarrow> string \<Rightarrow> string \<Rightarrow> string \<Rightarrow> volume \<Rightarrow> trace \<Rightarrow> py_error option \<times> trace" where
  "stats_and_density env filepath results_dir base_no_ext data tr =
     (case analyze_nifti env filepath tr of
        (Inl e, tr1) \<Rightarrow> (Some e, tr1)
      | (Inr None, tr1) \<Rightarrow>
          (None, tr1 @ [LogInfo (''[Initial QC] Finished processing '' @ filepath @ ''.'' @ [CHR 0x0A])])
      | (Inr (Some st), tr1) \<Rightarrow>
          (let stats_csv_path = os_path_join results_dir (base_no_ext @ ''_stats.csv'')
           in case to_csv env st stats_csv_path of
                Some e \<Rightarrow> (Some e, tr1)
              | None \<Rightarrow>
                  (let tr2 = tr1 @ [WriteStatsCsv stats_csv_path];
                       density_svg_path = os_path_join results_dir (base_no_ext @ ''_density.svg'')
                   in case density_plot env data density_svg_path of
                        Some e \<Rightarrow> (Some e, tr2)
                      | None \<Rightarrow>
                          (None, tr2 @ [SaveDensitySvg density_svg_path,
                                  LogInfo (''[Initial QC] Finished processing '' @ filepath @ ''.'' @ [CHR 0x0A])]))))"

definition process_scan_initial :: "scan_env \<Rightarrow> string \<Rightarrow> string \<Rightarrow> int \<Rightarrow> trace \<Rightarrow> py_error option \<times> trace" where
  "process_scan_initial env bids_root filepath num_slices tr =
     (let filename = os_path_basename filepath;
          base_no_ext = strip_nii_gz filename;
          tr1 = tr @ [Processing filepath]
      in case nib_load env filepath of
           Inl e \<Rightarrow> (Some e, tr1)
         | Inr data \<Rightarrow>
             (case find_slices_of_interest data num_slices of
                Inl e \<Rightarrow> (Some e, tr1)
              | Inr slice_indices \<Rightarrow>
                  (let results_dir = results_dir_of env bids_root filepath
                   in case makedirs env results_dir of
                        Some e \<Rightarrow> (Some e, tr1)
                      | None \<Rightarrow>
                          (let tr2 = tr1 @ [MakeDirs results_dir];
                               original_png = os_path_join results_dir (base_no_ext @ ''_original_slices.png'')
                           in case plot_slices env data slice_indices original_png of
                                Some e \<Rightarrow> (Some e, tr2)
                              | None \<Rightarrow>
                                  stats_and_density env filepath results_dir base_no_ext data
                                    (tr2 @ [SavePng original_png])))))"

text \<open>The file filter of both traversals.\<close>

definition is_scan_file :: "string \<Rightarrow> string \<Rightarrow> bool" where
  "is_scan_file scan_type fname \<longleftrightarrow>
     (suffix ''.nii'' fname \<or> suffix ''.nii.gz'' fname) \<and> sublist scan_type fname"

text \<open>
  \<open>traverse_bids_initial\<close> over the triples that \<open>os.walk(bids_root)\<close> yields. An exception
  of \<open>process_scan_initial\<close> is not caught: it ends the traversal.
\<close>

fun initial_files :: "scan_env \<Rightarrow> string \<Rightarrow> string \<Rightarrow> int \<Rightarrow> string \<Rightarrow> string list \<Rightarrow> trace \<Rightarrow> py_error option \<times> trace" where
  "initial_files env bids_root scan_type num_slices dirpath [] tr = (None, tr)"
| "initial_files env bids_root scan_type num_slices dirpath (fname # files) tr =
     (if is_scan_file scan_type fname
      then (case process_scan_initial env bids_root (os_path_join dirpath fname) num_slices tr of
              (Some e, tr1) \<Rightarrow> (Some e, tr1)
            | (None, tr1) \<Rightarrow> initial_files env bids_root scan_type num_slices dirpath files tr1)
      else initial_files env bids_root scan_type num_slices dirpath files tr)"

fun initial_walk :: "scan_env \<Rightarrow> string \<Rightarrow> string \<Rightarrow> int \<Rightarrow> walk \<Rightarrow> trace \<Rightarrow> py_error option \<times> trace" where
  "initial_walk env bids_root scan_type num_slices [] tr = (None, tr)"
| "initial_walk env bids_root scan_type num_slices ((dirpath, dirs, files) # w) tr =
     (if sublist ''results'' dirpath then initial_walk env bids_root scan_type num_slices w tr
      else (case initial_files env bids_root scan_type num_slices dirpath files tr of
              (Some e, tr1) \<Rightarrow> (Some e, tr1)
            | (None, tr1) \<Rightarrow> initial_walk env bids_root scan_type num_slices w tr1))"

definition traverse_bids_initial :: "scan_env \<Rightarrow> walk \<Rightarrow> string \<Rightarrow> string \<Rightarrow> int \<Rightarrow> py_error option \<times> trace" where
  "traverse_bids_initial env w bids_root scan_type num_slices =
     (case initial_walk env bids_root scan_type num_slices w
             [LogInfo (''[Initial QC] Starting traversal of '' @ bids_root @ '' for scan type ''
                        @ scan_type @ ''...'')] of
        (Some e, tr) \<Rightarrow> (Some e, tr)
      | (None, tr) \<Rightarrow> (None, tr @ [LogInfo ''[Initial QC] Finished processing all files.'']))"

text \<open>
  Two environments for running the pipeline on concrete inputs. In \<open>unloadable_env\<close> the
  file \<open>/data/sub-1_T1w.nii\<close> cannot be loaded and every other file holds
  \<open>example_volume\<close>; in \<open>malformed_env\<close> every file loads but the statistics raise.
\<close>

definition unloadable_env :: scan_env where
  "unloadable_env =
     \<lparr>nib_load = (\<lambda>p. if p = ''/data/sub-1_T1w.nii'' then Inl OSError else Inr example_volume),
      np_stats = (\<lambda>v. Inr \<lparr>st_mean = 2, st_median = 1, st_max = 5, st_min = 1, st_std = 1\<rparr>),
      makedirs = (\<lambda>p. None),
      plot_slices = (\<lambda>v idx p. None),
      to_csv = (\<lambda>st p. None),
      density_plot = (\<lambda>v p. None),
      relpath = (\<lambda>p start. ''.''),
      path_exists = (\<lambda>p. False),
      ensure_docker_image = True,
      process_skull_stripping = (\<lambda>p. None),
      error_text = (\<lambda>e. ''error'')\<rparr>"

definition malformed_env :: scan_env where
  "malformed_env = unloadable_env
     \<lparr>nib_load := (\<lambda>p. Inr example_volume), np_stats := (\<lambda>v. Inl ValueError)\<rparr>"

text \<open>The events that write a statistics record or a density plot.\<close>

fun writes_statistics :: "event \<Rightarrow> bool" where
  "writes_statistics (WriteStatsCsv p) = True"
| "writes_statistics (SaveDensitySvg p) = True"
| "writes_statistics e = False"

section \<open>The final pass\<close>

text \<open>
  \<open>extract_sub_ses\<close>: the pattern \<open>(sub-\d+)_?(ses-\d+)?\<close>, case-sensitive, searched in the
  base name; without a match the key is \<open>(None, None)\<close>, without a session it is \<open>ses-01\<close>.
\<close>

definition sub_ses_here :: "string \<Rightarrow> (string \<times> string option) option" where
  "sub_ses_here s =
     (if prefix ''sub-'' s
      then (let r = drop 4 s; ds = takeWhile is_digit r
            in if ds = [] then None
               else (let r1 = dropWhile is_digit r;
                         r2 = (case r1 of [] \<Rightarrow> [] | c # cs \<Rightarrow> if c = CHR ''_'' then cs else r1);
                         es = takeWhile is_digit (drop 4 r2)
                     in Some (''sub-'' @ ds,
                              if prefix ''ses-'' r2 \<and> es \<noteq> [] then Some (''ses-'' @ es) else None)))
      else None)"

fun sub_ses_search :: "string \<Rightarrow> (string \<times> string option) option" where
  "sub_ses_search [] = sub_ses_here []"
| "sub_ses_search (c # cs) =
     (case sub_ses_here (c # cs) of Some m \<Rightarrow> Some m | None \<Rightarrow> sub_ses_search cs)"

definition extract_sub_ses :: "string \<Rightarrow> string option \<times> string option" where
  "extract_sub_ses filepath =
     (case sub_ses_search (os_path_basename filepath) of
        Some (sub_id, ses) \<Rightarrow> (Some sub_id, Some (case ses of Some s \<Rightarrow> s | None \<Rightarrow> ''ses-01''))
      | None \<Rightarrow> (None, None))"

text \<open>
  The first step of \<open>process_scan_final\<close>: the skull-stripped file, found or produced;
  \<open>Inl\<close> is the early \<open>return\<close> when it cannot be had.
\<close>

definition skull_stripped_file :: "scan_env \<Rightarrow> string \<Rightarrow> string \<Rightarrow> trace \<Rightarrow> trace + (string \<times> trace)" where
  "skull_stripped_file env filepath stripped_path tr =
     (if path_exists env stripped_path
      then Inr (stripped_path, tr @ [LogInfo (''Found existing skull-stripped file: '' @ stripped_path)])
      else if \<not> ensure_docker_image env
      then Inl (tr @ [LogError ''Could not ensure Docker image availability. Skipping.''])
      else
        (let tr1 = tr @ [LogInfo (''No skull-stripped file found. Running skull stripping on ''
                                   @ filepath @ ''...'')]
         in case process_skull_stripping env filepath of
              None \<Rightarrow>
                Inl (tr1 @ [LogWarning (''No skull-stripped file produced for '' @ filepath
                                         @ ''. Skipping further analysis.'')])
            | Some result_path \<Rightarrow>
                (if result_path = [] \<or> \<not> path_exists env result_path
                 then Inl (tr1 @ [LogWarning (''No skull-stripped file produced for '' @ filepath
                                               @ ''. Skipping further analysis.'')])
                 else Inr (result_path, tr1))))"

text \<open>
  \<open>process_scan_final\<close>. After the slices are selected the function calls
  \<open>ensure_results_dir\<close>, a name that the final pipeline neither defines nor imports: the
  call raises NameError, and nothing after it runs.
\<close>

definition process_scan_final :: "scan_env \<Rightarrow> string \<Rightarrow> string \<Rightarrow> int \<Rightarrow> trace \<Rightarrow> py_error option \<times> trace" where
  "process_scan_final env bids_root filepath num_slices tr =
     (let base_no_ext = splitext_root (splitext_root (os_path_basename filepath));
          tr1 = tr @ [Processing filepath];
          stripped_filename = base_no_ext @ ''_skullstripped.nii.gz'';
          stripped_path = os_path_join (os_path_dirname filepath) stripped_filename
      in case skull_stripped_file env filepath stripped_path tr1 of
           Inl tr2 \<Rightarrow> (None, tr2)
         | Inr (stripped_path', tr2) \<Rightarrow>
             (case nib_load env stripped_path' of
                Inl e \<Rightarrow> (Some e, tr2)
              | Inr stripped_data \<Rightarrow>
                  (case find_slices_of_interest_final stripped_data num_slices of
                     Inl e \<Rightarrow> (Some e, tr2)
                   | Inr slice_indices \<Rightarrow> (Some NameError, tr2))))"

text \<open>
  \<open>traverse_bids_final\<close>. \<open>accepted\<close> is what \<open>load_accepted_csv\<close> gives: the
  (subject, session) pairs of the accepted list, or the exception of reading it.
\<close>

fun final_files :: "scan_env \<Rightarrow> (string \<times> string) list \<Rightarrow> string \<Rightarrow> string \<Rightarrow> int \<Rightarrow> string \<Rightarrow> string list \<Rightarrow> trace \<Rightarrow> py_error option \<times> trace" where
  "final_files env acc bids_root scan_type num_slices dirpath [] tr = (None, tr)"
| "final_files env acc bids_root scan_type num_slices dirpath (fname # files) tr =
     (if is_scan_file scan_type fname
      then (let fullpath = os_path_join dirpath fname;
                sub_ses_key = extract_sub_ses fullpath
            in if sub_ses_key \<in> set (map (\<lambda>(a, b). (Some a, Some b)) acc)
               then (case process_scan_final env bids_root fullpath num_slices tr of
                       (Some e, tr1) \<Rightarrow> (Some e, tr1)
                     | (None, tr1) \<Rightarrow>
                         final_files env acc bids_root scan_type num_slices dirpath files tr1)
               else final_files env acc bids_root scan_type num_slices dirpath files
                      (tr @ [LogInfo (''Skipping '' @ fullpath @ '' (not in accepted list).'')]))
      else final_files env acc bids_root scan_type num_slices dirpath files tr)"

fun final_walk :: "scan_env \<Rightarrow> (string \<times> string) list \<Rightarrow> string \<Rightarrow> string \<Rightarrow> int \<Rightarrow> walk \<Rightarrow> trace \<Rightarrow> py_error option \<times> trace" where
  "final_walk env acc bids_root scan_type num_slices [] tr = (None, tr)"
| "final_walk env acc bids_root scan_type num_slices ((dirpath, dirs, files) # w) tr =
     (if sublist ''results'' dirpath then final_walk env acc bids_root scan_type num_slices w tr
      else (case final_files env acc bids_root scan_type num_slices dirpath files tr of
              (Some e, tr1) \<Rightarrow> (Some e, tr1)
            | (None, tr1) \<Rightarrow> final_walk env acc bids_root scan_type num_slices w tr1))"

definition traverse_bids_final :: "scan_env \<Rightarrow> py_error + (string \<times> string) list \<Rightarrow> walk \<Rightarrow> string \<Rightarrow> string \<Rightarrow> int \<Rightarrow> py_error option \<times> trace" where
  "traverse_bids_final env accepted w bids_root scan_type num_slices =
     (let tr0 = [LogInfo (''[Final QC] Starting traversal of '' @ bids_root @ '' for scan type ''
                           @ scan_type @ ''...'')]
      in case accepted of
           Inl e \<Rightarrow> (Some e, tr0)
         | Inr acc \<Rightarrow>
             (case final_walk env acc bids_root scan_type num_slices w tr0 of
                (Some e, tr) \<Rightarrow> (Some e, tr)
              | (None, tr) \<Rightarrow> (None, tr @ [LogInfo ''[Final QC] Finished processing all files.''])))"

text \<open>
  A processed path comes from a visited directory when it is the join of a directory of
  the walk whose path does not contain \<open>results\<close> with one of the files listed in it.
  File names, as \<open>os.walk\<close> lists them, contain no slash.
\<close>

definition from_visited_dir :: "walk \<Rightarrow> string \<Rightarrow> bool" where
  "from_visited_dir w p \<longleftrightarrow>
     (\<exists>(d, ds, fs) \<in> set w. \<not> sublist ''results'' d \<and> (\<exists>f \<in> set fs. p = os_path_join d f))"

definition slash_free_walk :: "walk \<Rightarrow> bool" where
  "slash_free_walk w \<longleftrightarrow> (\<forall>(d, ds, fs) \<in> set w. \<forall>f \<in> set fs. CHR ''/'' \<notin> set f)"

definition rooted_walk :: "string \<Rightarrow> walk \<Rightarrow> bool" where
  "rooted_walk bids_root w \<longleftrightarrow> (\<forall>(d, ds, fs) \<in> set w. prefix bids_root d)"

text \<open>A walk with a data directory whose name happens to contain \<open>results\<close>.\<close>

definition example_walk :: walk where
  "example_walk =
     [(''/data'', [''sub-1'', ''sub-2_results''], []),
      (''/data/sub-1'', [], [''sub-1_T1w.nii'']),
      (''/data/sub-2_results'', [], [''sub-2_T1w.nii''])]"

text \<open>
  The directory part that \<open>os.path.join\<close> puts in front of a file name: the directory
  itself when it is empty or ends with a slash, otherwise the directory and a slash.
\<close>

definition dir_norm :: "string \<Rightarrow> string" where
  "dir_norm d = (if d = [] \<or> suffix ''/'' d then d else d @ ''/'')"

section \<open>Slice selection: auxiliary facts\<close>

lemma distinct_remdups_adj_sorted:
  fixes xs :: "'a::linorder list"
  shows "sorted xs \<Longrightarrow> distinct (remdups_adj xs)"
proof (induction xs rule: remdups_adj.induct)
  case (3 x y xs)
  show ?case
  proof (cases "x = y")
    case True
    with 3 show ?thesis by simp
  next
    case False
    from "3.prems" have xy: "x < y" and rest: "\<forall>z\<in>set xs. y \<le> z" and s: "sorted (y # xs)"
      using False by auto
    have "x \<notin> set (remdups_adj (y # xs))"
      using xy rest by (auto simp del: remdups_adj.simps)
    with 3 False s show ?thesis by simp
  qed
qed simp_all

lemma np_unique_strict: "sorted_wrt (<) (np_unique a)"
  by (simp add: np_unique_def strict_sorted_iff sorted_remdups_adj distinct_remdups_adj_sorted)

lemma set_np_unique: "set (np_unique a) = set a"
  by (simp add: np_unique_def)

lemma length_np_unique: "length (np_unique a) \<le> length a"
  using remdups_adj_length [of "sort a"] by (simp add: np_unique_def)

lemma np_unique_Nil_iff: "np_unique a = [] \<longleftrightarrow> a = []"
  by (metis np_unique_def remdups_adj_Nil_iff length_sort length_0_conv)

lemma np_unique_sorted_distinct: "sorted_wrt (<) a \<Longrightarrow> np_unique a = a"
  by (simp add: np_unique_def strict_sorted_iff sorted_sort_id remdups_adj_distinct)


lemma argmax_scan_first_max:
  "length p = i \<Longrightarrow> b < i \<Longrightarrow> p ! b = m \<Longrightarrow> \<forall>j<i. p ! j \<le> m \<Longrightarrow> \<forall>j<b. p ! j < m \<Longrightarrow>
   argmax_scan i b m xs < length (p @ xs) \<and>
   (\<forall>j<length (p @ xs). (p @ xs) ! j \<le> (p @ xs) ! argmax_scan i b m xs) \<and>
   (\<forall>j<argmax_scan i b m xs. (p @ xs) ! j < (p @ xs) ! argmax_scan i b m xs)"
proof (induction xs arbitrary: p i b m)
  case Nil
  then show ?case by simp
next
  case (Cons x xs)
  let ?p = "p @ [x]"
  show ?case
  proof (cases "m < x")
    case True
    have "argmax_scan (Suc i) i x xs < length (?p @ xs) \<and>
      (\<forall>j<length (?p @ xs). (?p @ xs) ! j \<le> (?p @ xs) ! argmax_scan (Suc i) i x xs) \<and>
      (\<forall>j<argmax_scan (Suc i) i x xs. (?p @ xs) ! j < (?p @ xs) ! argmax_scan (Suc i) i x xs)"
    proof (rule Cons.IH)
      show "length ?p = Suc i" using Cons.prems by simp
      show "i < Suc i" by simp
      show "?p ! i = x" using Cons.prems by (simp add: nth_append)
      show "\<forall>j<Suc i. ?p ! j \<le> x"
        using Cons.prems True by (auto simp: nth_append less_Suc_eq intro: order_trans less_imp_le)
      show "\<forall>j<i. ?p ! j < x"
        using Cons.prems True by (auto simp: nth_append intro: le_less_trans)
    qed
    with True show ?thesis by simp
  next
    case False
    have "argmax_scan (Suc i) b m xs < length (?p @ xs) \<and>
      (\<forall>j<length (?p @ xs). (?p @ xs) ! j \<le> (?p @ xs) ! argmax_scan (Suc i) b m xs) \<and>
      (\<forall>j<argmax_scan (Suc i) b m xs. (?p @ xs) ! j < (?p @ xs) ! argmax_scan (Suc i) b m xs)"
    proof (rule Cons.IH)
      show "length ?p = Suc i" using Cons.prems by simp
      show "b < Suc i" using Cons.prems by simp
      show "?p ! b = m" using Cons.prems by (simp add: nth_append)
      show "\<forall>j<Suc i. ?p ! j \<le> m"
        using Cons.prems False by (auto simp: nth_append less_Suc_eq)
      show "\<forall>j<b. ?p ! j < m"
        using Cons.prems by (auto simp: nth_append)
    qed
    with False show ?thesis by simp
  qed
qed

lemma np_argmax_first_max:
  assumes "a \<noteq> []"
  shows "\<exists>k. np_argmax a = Inr k \<and> k < length a \<and> (\<forall>j<length a. a ! j \<le> a ! k) \<and> (\<forall>j<k. a ! j < a ! k)"
proof -
  from assms obtain x xs where a: "a = x # xs" by (cases a) auto
  have "argmax_scan 1 0 x xs < length ([x] @ xs) \<and>
   (\<forall>j<length ([x] @ xs). ([x] @ xs) ! j \<le> ([x] @ xs) ! argmax_scan 1 0 x xs) \<and>
   (\<forall>j<argmax_scan 1 0 x xs. ([x] @ xs) ! j < ([x] @ xs) ! argmax_scan 1 0 x xs)"
    by (rule argmax_scan_first_max) simp_all
  then show ?thesis by (simp add: a np_argmax_def)
qed

lemma np_argmax_Nil: "np_argmax [] = Inl ValueError"
  by (simp add: np_argmax_def)

lemma length_np_sum_axis01: "length (np_sum_axis01 data) = dim_z data"
  by (simp add: np_sum_axis01_def)

lemma floor_linspace_point:
  "\<lfloor>real i * (real_of_int d / real_of_int q) + real_of_int a\<rfloor> = a + (int i * d) div q"
proof -
  have "real i * (real_of_int d / real_of_int q) = real_of_int (int i * d) / real_of_int q"
    by simp
  then have "\<lfloor>real i * (real_of_int d / real_of_int q) + real_of_int a\<rfloor>
      = \<lfloor>real_of_int (int i * d) / real_of_int q\<rfloor> + a"
    by (simp only: floor_add_int)
  also have "\<dots> = a + (int i * d) div q"
    by (simp only: floor_divide_of_int_eq add.commute)
  finally show ?thesis .
qed

lemma np_linspace_int_closed:
  assumes "1 \<le> num"
  shows "np_linspace_int a b num =
     Inr (map (\<lambda>i. if num = 1 then a else a + (int i * (b - a)) div (num - 1)) [0..<nat num])"
proof (cases "num = 1")
  case True
  then show ?thesis by (simp add: np_linspace_int_def)
next
  case False
  with assms have n2: "1 < num" by simp
  then have ne: "num \<noteq> 1" by simp
  let ?q = "num - 1"
  let ?f = "\<lambda>i. a + (int i * (b - a)) div ?q"
  have last: "?f (nat num - 1) = b"
  proof -
    have "int (nat num - 1) = ?q" using n2 by simp
    then have "(int (nat num - 1) * (b - a)) div ?q = (?q * (b - a)) div ?q" by simp
    also have "\<dots> = b - a" using n2 by simp
    finally show ?thesis by simp
  qed
  have "(map ?f [0..<nat num])[nat num - 1 := ?f (nat num - 1)] = map ?f [0..<nat num]"
    by (rule nth_equalityI) (auto simp: nth_list_update)
  then have upd: "(map ?f [0..<nat num])[nat num - 1 := b] = map ?f [0..<nat num]"
    by (simp only: last)
  show ?thesis
  proof (cases "real_of_int b - real_of_int a = 0")
    case True
    then have ba: "b = a" by simp
    have "np_linspace_int a b num = Inr ((map (\<lambda>t. a) [0..<nat num])[nat num - 1 := a])"
      using n2 by (simp add: np_linspace_int_def ba Let_def comp_def map_update)
    also have "(map (\<lambda>t. a) [0..<nat num])[nat num - 1 := a] = map (\<lambda>t. a) [0..<nat num]"
      by (rule nth_equalityI) (auto simp: nth_list_update)
    finally show ?thesis using ne by (simp add: ba)
  next
    case False
    then have "(real_of_int b - real_of_int a) / real_of_int ?q \<noteq> 0" using n2 by simp
    then have "np_linspace_int a b num =
        Inr (map floor ((map (\<lambda>i. real i * ((real_of_int b - real_of_int a) / real_of_int ?q) + real_of_int a)
               [0..<nat num])[nat num - 1 := real_of_int b]))"
      using n2 by (simp add: np_linspace_int_def Let_def comp_def)
    also have "map floor ((map (\<lambda>i. real i * ((real_of_int b - real_of_int a) / real_of_int ?q) + real_of_int a)
               [0..<nat num])[nat num - 1 := real_of_int b])
       = (map ?f [0..<nat num])[nat num - 1 := b]"
    proof -
      have "\<And>i. \<lfloor>real i * ((real_of_int b - real_of_int a) / real_of_int ?q) + real_of_int a\<rfloor> = ?f i"
        using floor_linspace_point [of _ "b - a" ?q a] by simp
      then show ?thesis by (simp add: map_update comp_def add.commute)
    qed
    finally show ?thesis using ne upd by simp
  qed
qed


lemma np_linspace_int_points:
  "1 \<le> num \<Longrightarrow> np_linspace_int a b num = Inr (map (linspace_point a b num) [0..<nat num])"
  using np_linspace_int_closed [of num a b] by (simp add: linspace_point_def [abs_def])

lemma linspace_point_bounds:
  assumes "a \<le> b" "1 \<le> num" "i < nat num"
  shows "a \<le> linspace_point a b num i \<and> linspace_point a b num i \<le> b"
proof (cases "num = 1")
  case True
  with assms show ?thesis by (simp add: linspace_point_def)
next
  case False
  with assms have q: "0 < num - 1" by simp
  have iq: "int i \<le> num - 1" using assms by simp
  have lo: "0 \<le> (int i * (b - a)) div (num - 1)"
    using assms q by (simp add: pos_imp_zdiv_nonneg_iff)
  have "int i * (b - a) \<le> (num - 1) * (b - a)"
    using iq assms by (simp add: mult_right_mono)
  then have "(int i * (b - a)) div (num - 1) \<le> ((num - 1) * (b - a)) div (num - 1)"
    using q by (rule zdiv_mono1)
  also have "\<dots> = b - a" using q by simp
  finally show ?thesis using lo False by (simp add: linspace_point_def)
qed


lemma linspace_point_strict_step:
  assumes "1 < num" "num - 1 \<le> b - a"
  shows "linspace_point a b num i < linspace_point a b num (Suc i)"
proof -
  from assms have q: "0 < num - 1" by simp
  have "int i * (b - a) + (num - 1) \<le> int (Suc i) * (b - a)"
    using assms by (simp add: algebra_simps)
  then have "(int i * (b - a) + (num - 1)) div (num - 1) \<le> (int (Suc i) * (b - a)) div (num - 1)"
    using q by (rule zdiv_mono1)
  moreover have "(int i * (b - a) + (num - 1)) div (num - 1) = (int i * (b - a)) div (num - 1) + 1"
    using q by simp
  ultimately show ?thesis using assms by (simp add: linspace_point_def)
qed

lemma linspace_point_strict_mono:
  assumes "1 < num" "num - 1 \<le> b - a" "i < j"
  shows "linspace_point a b num i < linspace_point a b num j"
  using \<open>i < j\<close>
proof (induction j)
  case 0
  then show ?case by simp
next
  case (Suc j)
  have step: "linspace_point a b num j < linspace_point a b num (Suc j)"
    using assms(1,2) by (rule linspace_point_strict_step)
  show ?case
  proof (cases "i = j")
    case True
    with step show ?thesis by simp
  next
    case False
    with Suc have "linspace_point a b num i < linspace_point a b num j" by simp
    with step show ?thesis by simp
  qed
qed


lemma strict_sorted_linspace_points:
  "1 < num \<Longrightarrow> num - 1 \<le> b - a \<Longrightarrow> sorted_wrt (<) (map (linspace_point a b num) [0..<n])"
  by (simp add: sorted_wrt_map sorted_wrt_iff_nth_less linspace_point_strict_mono)

lemma clamp_bounds:
  assumes "0 \<le> k" "k < z" "0 \<le> n"
  shows "0 \<le> start_idx k n" "start_idx k n \<le> k" "k \<le> end_idx z k n" "end_idx z k n \<le> z - 1"
  using assms by (simp_all add: start_idx_def end_idx_def)

lemma clamp_span:
  assumes "0 \<le> k" "k < z" "0 \<le> n"
  shows "min z (n * 5 + 1) \<le> end_idx z k n - start_idx k n + 1"
  using assms by (simp add: start_idx_def end_idx_def min_def max_def)

lemma find_slices_unfold:
  assumes "np_argmax (np_sum_axis01 data) = Inr k" "1 \<le> num_slices"
  shows "find_slices_of_interest data num_slices =
     Inr (np_unique (map (linspace_point (start_idx (int k) num_slices)
            (end_idx (int (dim_z data)) (int k) num_slices) num_slices) [0..<nat num_slices]))"
  using assms by (simp add: find_slices_of_interest_def np_linspace_int_points)


lemma strict_sorted_all_zero:
  fixes xs :: "int list"
  assumes "sorted_wrt (<) xs" "xs \<noteq> []" "\<forall>i\<in>set xs. 0 \<le> i \<and> i \<le> 0"
  shows "xs = [0]"
proof -
  from assms(2) obtain x ys where xs: "xs = x # ys" by (cases xs) auto
  have "ys = []"
  proof (cases ys)
    case Nil then show ?thesis .
  next
    case (Cons y zs)
    with assms(1) xs have "x < y" by simp
    moreover from assms(3) xs Cons have "x = 0" "y = 0" by simp_all
    ultimately show ?thesis by simp
  qed
  with assms(3) xs show ?thesis by simp
qed

lemma find_slices_shape:
  assumes "1 \<le> dim_z data" "1 \<le> num_slices"
  shows "\<exists>k. np_argmax (np_sum_axis01 data) = Inr k \<and> k < dim_z data \<and>
      find_slices_of_interest data num_slices =
        Inr (np_unique (map (linspace_point (start_idx (int k) num_slices)
            (end_idx (int (dim_z data)) (int k) num_slices) num_slices) [0..<nat num_slices]))"
proof -
  have "np_sum_axis01 data \<noteq> []"
    using assms(1) length_np_sum_axis01 [of data] by auto
  from np_argmax_first_max [OF this] obtain k
    where k: "np_argmax (np_sum_axis01 data) = Inr k" "k < length (np_sum_axis01 data)"
    by blast
  from k(2) have "k < dim_z data" by (simp add: length_np_sum_axis01)
  with k(1) find_slices_unfold [OF k(1) assms(2)] show ?thesis by blast
qed

section \<open>Slice selection: shape of the result\<close>

text \<open>
  Claim C1. For every volume with at least one z-index and every target count \<open>N \<ge> 1\<close>,
  \<open>find_slices_of_interest\<close> returns (it does not raise) a strictly ascending list of
  integers, each between \<open>0\<close> and \<open>z_size - 1\<close>, of length at least 1 and at most \<open>N\<close>;
  when \<open>z_size = 1\<close> the result is exactly \<open>[0]\<close>.
\<close>

theorem find_slices_ascending_in_range:
  assumes "1 \<le> dim_z data" and "1 \<le> num_slices"
  shows "\<exists>idx. find_slices_of_interest data num_slices = Inr idx \<and>
           sorted_wrt (<) idx \<and>
           (\<forall>i\<in>set idx. 0 \<le> i \<and> i \<le> int (dim_z data) - 1) \<and>
           1 \<le> length idx \<and> int (length idx) \<le> num_slices \<and>
           (dim_z data = 1 \<longrightarrow> idx = [0])"
proof -
  from find_slices_shape [OF assms] obtain k where
    kz: "k < dim_z data" and
    res: "find_slices_of_interest data num_slices =
        Inr (np_unique (map (linspace_point (start_idx (int k) num_slices)
            (end_idx (int (dim_z data)) (int k) num_slices) num_slices) [0..<nat num_slices]))"
    by blast
  let ?a = "start_idx (int k) num_slices"
  let ?b = "end_idx (int (dim_z data)) (int k) num_slices"
  let ?pts = "map (linspace_point ?a ?b num_slices) [0..<nat num_slices]"
  let ?idx = "np_unique ?pts"
  have n0: "0 \<le> num_slices" using assms(2) by simp
  have k0: "0 \<le> int k" and kz': "int k < int (dim_z data)" using kz by simp_all
  note cb = clamp_bounds [OF k0 kz' n0]
  have ab: "?a \<le> ?b" using cb by linarith
  have rng: "\<forall>i\<in>set ?idx. 0 \<le> i \<and> i \<le> int (dim_z data) - 1"
  proof
    fix i assume "i \<in> set ?idx"
    then obtain j where j: "j < nat num_slices" "i = linspace_point ?a ?b num_slices j"
      by (auto simp: set_np_unique)
    from linspace_point_bounds [OF ab assms(2) j(1)] j(2) cb show "0 \<le> i \<and> i \<le> int (dim_z data) - 1"
      by linarith
  qed
  have ne: "?pts \<noteq> []" using assms(2) by simp
  then have ne': "?idx \<noteq> []" by (simp add: np_unique_Nil_iff)
  then have len1: "1 \<le> length ?idx" by (cases ?idx) simp_all
  have "length ?idx \<le> length ?pts" by (rule length_np_unique)
  then have len2: "int (length ?idx) \<le> num_slices" using assms(2) by simp
  have strict: "sorted_wrt (<) ?idx" by (rule np_unique_strict)
  have one: "dim_z data = 1 \<longrightarrow> ?idx = [0]"
  proof
    assume z1: "dim_z data = 1"
    have "\<forall>i\<in>set ?idx. 0 \<le> i \<and> i \<le> 0"
    proof
      fix i assume "i \<in> set ?idx"
      with rng have "0 \<le> i \<and> i \<le> int (dim_z data) - 1" by (rule bspec)
      then show "0 \<le> i \<and> i \<le> 0" by (simp only: z1) simp
    qed
    with strict ne' show "?idx = [0]" by (rule strict_sorted_all_zero)
  qed
  show ?thesis
  proof (intro exI conjI)
    show "find_slices_of_interest data num_slices = Inr ?idx" by (rule res)
    show "sorted_wrt (<) ?idx" by (rule strict)
    show "\<forall>i\<in>set ?idx. 0 \<le> i \<and> i \<le> int (dim_z data) - 1" by (rule rng)
    show "1 \<le> length ?idx" by (rule len1)
    show "int (length ?idx) \<le> num_slices" by (rule len2)
    show "dim_z data = 1 \<longrightarrow> ?idx = [0]" by (rule one)
  qed
qed

theorem find_slices_ascending_in_range_witness:
  "1 \<le> dim_z single_slice_volume \<and> (1::int) \<le> 3 \<and> dim_z single_slice_volume = 1 \<and>
   find_slices_of_interest single_slice_volume 3 = Inr [0]"
proof -
  have h1: "1 \<le> dim_z single_slice_volume" by (simp add: single_slice_volume_def)
  have h2: "(1::int) \<le> 3" by simp
  have h3: "dim_z single_slice_volume = 1" by (simp add: single_slice_volume_def)
  from find_slices_ascending_in_range [OF h1 h2] obtain idx where
    "find_slices_of_interest single_slice_volume 3 = Inr idx"
    "dim_z single_slice_volume = 1 \<longrightarrow> idx = [0]"
    by blast
  with h1 h2 h3 show ?thesis by simp
qed

section \<open>Slice selection: no under-count when the volume has at least N slices\<close>

text \<open>
  Claim C9. For every volume and every \<open>N \<ge> 1\<close> with \<open>z_size \<ge> N\<close>,
  \<open>find_slices_of_interest\<close> returns exactly \<open>N\<close> pairwise distinct indices: the clamped span
  from \<open>start_idx\<close> to \<open>end_idx\<close> holds at least \<open>min(z_size, N * 5 + 1)\<close> integers, which is at
  least \<open>N\<close>, so the evenly spaced values are strictly increasing before \<open>np.unique\<close>.
  Fewer than \<open>N\<close> indices can therefore only be returned when \<open>z_size < N\<close>.
\<close>

theorem find_slices_full_count:
  assumes "1 \<le> num_slices" and "num_slices \<le> int (dim_z data)"
  shows "\<exists>best idx. np_argmax (np_sum_axis01 data) = Inr best \<and>
           find_slices_of_interest data num_slices = Inr idx \<and>
           int (length idx) = num_slices \<and> distinct idx \<and>
           num_slices \<le> min (int (dim_z data)) (num_slices * 5 + 1) \<and>
           min (int (dim_z data)) (num_slices * 5 + 1)
             \<le> end_idx (int (dim_z data)) (int best) num_slices - start_idx (int best) num_slices + 1"
proof -
  have z1: "1 \<le> dim_z data" using assms by linarith
  from find_slices_shape [OF z1 assms(1)] obtain k where
    am: "np_argmax (np_sum_axis01 data) = Inr k" and
    kz: "k < dim_z data" and
    res: "find_slices_of_interest data num_slices =
        Inr (np_unique (map (linspace_point (start_idx (int k) num_slices)
            (end_idx (int (dim_z data)) (int k) num_slices) num_slices) [0..<nat num_slices]))"
    by blast
  let ?a = "start_idx (int k) num_slices"
  let ?b = "end_idx (int (dim_z data)) (int k) num_slices"
  let ?pts = "map (linspace_point ?a ?b num_slices) [0..<nat num_slices]"
  have n0: "0 \<le> num_slices" using assms(1) by simp
  have k0: "0 \<le> int k" and kz': "int k < int (dim_z data)" using kz by simp_all
  have span: "min (int (dim_z data)) (num_slices * 5 + 1) \<le> ?b - ?a + 1"
    by (rule clamp_span [OF k0 kz' n0])
  have nmin: "num_slices \<le> min (int (dim_z data)) (num_slices * 5 + 1)"
    using assms by simp
  have wide: "num_slices - 1 \<le> ?b - ?a" using span nmin by linarith
  have strict: "sorted_wrt (<) ?pts"
  proof (cases "num_slices = 1")
    case True
    then show ?thesis by simp
  next
    case False
    with assms(1) have "1 < num_slices" by simp
    then show ?thesis using wide by (rule strict_sorted_linspace_points)
  qed
  then have same: "np_unique ?pts = ?pts" by (rule np_unique_sorted_distinct)
  have len: "int (length ?pts) = num_slices" using assms(1) by simp
  have dist: "distinct ?pts" using strict by (simp add: strict_sorted_iff)
  show ?thesis
  proof (intro exI conjI)
    show "np_argmax (np_sum_axis01 data) = Inr k" by (rule am)
    show "find_slices_of_interest data num_slices = Inr ?pts" using res same by simp
    show "int (length ?pts) = num_slices" by (rule len)
    show "distinct ?pts" by (rule dist)
    show "num_slices \<le> min (int (dim_z data)) (num_slices * 5 + 1)" by (rule nmin)
    show "min (int (dim_z data)) (num_slices * 5 + 1) \<le> ?b - ?a + 1" by (rule span)
  qed
qed

theorem find_slices_full_count_witness:
  "(1::int) \<le> 3 \<and> 3 \<le> int (dim_z example_volume) \<and>
   np_argmax (np_sum_axis01 example_volume) = Inr 2 \<and>
   (\<exists>idx. find_slices_of_interest example_volume 3 = Inr idx \<and> int (length idx) = 3 \<and> distinct idx)"
proof -
  have h1: "(1::int) \<le> 3" by simp
  have h2: "3 \<le> int (dim_z example_volume)" by (simp add: example_volume_def)
  have am: "np_argmax (np_sum_axis01 example_volume) = Inr 2"
    by (simp add: example_volume_def np_sum_axis01_def np_argmax_def upt_rec)
  from find_slices_full_count [OF h1 h2] h1 h2 am show ?thesis by blast
qed

section \<open>Slice selection: the source follows the specified algorithm\<close>











section \<open>Scan-key extraction\<close>

lemma match_literal_Some:
  "match_literal lit s = Some (m, r) \<Longrightarrow> s = m @ r \<and> map lower_ascii m = map lower_ascii lit"
  by (induction lit s arbitrary: m r rule: match_literal.induct)
     (auto split: if_splits option.splits)

lemma match_literal_complete:
  "map lower_ascii p = map lower_ascii lit \<Longrightarrow> match_literal lit (p @ r) = Some (p, r)"
proof (induction lit "p @ r" arbitrary: p r rule: match_literal.induct)
  case (1 s)
  then show ?case by simp
next
  case (2 p ps)
  then show ?case by simp
next
  case (3 q qs c cs)
  from "3.prems" obtain p' where p: "p = c # p'" "lower_ascii c = lower_ascii q"
      "map lower_ascii p' = map lower_ascii qs" "cs = p' @ r"
    using "3.hyps"(2) by (cases p) auto
  with "3.hyps"(1) [of p' r] show ?case by simp
qed

lemma match_literal_iff:
  "match_literal lit s = Some (m, r) \<longleftrightarrow> s = m @ r \<and> map lower_ascii m = map lower_ascii lit"
  using match_literal_Some match_literal_complete by blast

lemma token_ends_dropWhile: "token_ends (dropWhile (\<lambda>c. c \<noteq> CHR ''_'') r)"
  by (induction r) (simp_all add: token_ends_def)

lemma match_segment_Some:
  assumes "match_segment lit s = Some (seg, r)"
  shows "s = seg @ r \<and> is_segment lit seg \<and> token_ends r"
proof -
  from assms obtain m r0 where ml: "match_literal lit s = Some (m, r0)"
    by (auto simp: match_segment_def split: option.splits)
  let ?tok = "takeWhile (\<lambda>c. c \<noteq> CHR ''_'') r0"
  from assms ml have tok: "?tok \<noteq> []" and seg: "seg = m @ ?tok"
    and r: "r = dropWhile (\<lambda>c. c \<noteq> CHR ''_'') r0"
    by (auto simp: match_segment_def Let_def split: if_splits)
  from match_literal_Some [OF ml] have s: "s = m @ r0" and lw: "map lower_ascii m = map lower_ascii lit"
    by simp_all
  have "CHR ''_'' \<notin> set ?tok" by (auto dest: set_takeWhileD)
  with tok seg lw have "is_segment lit seg" by (auto simp: is_segment_def)
  moreover have "s = seg @ r" using s seg r by simp
  moreover have "token_ends r" unfolding r by (rule token_ends_dropWhile)
  ultimately show ?thesis by simp
qed

lemma match_segment_None:
  assumes "match_segment lit s = None"
  shows "\<not> has_segment lit s"
proof
  assume "has_segment lit s"
  then obtain p tok r where s: "s = (p @ tok) @ r" and lw: "map lower_ascii p = map lower_ascii lit"
    and tok: "tok \<noteq> []" "CHR ''_'' \<notin> set tok"
    by (auto simp: has_segment_def is_segment_def)
  have ml: "match_literal lit s = Some (p, tok @ r)"
    using match_literal_complete [OF lw, of "tok @ r"] s by simp
  from tok obtain t ts where "tok = t # ts" "t \<noteq> CHR ''_''" by (cases tok) auto
  then have "takeWhile (\<lambda>c. c \<noteq> CHR ''_'') (tok @ r) \<noteq> []" by simp
  with ml assms show False by (simp add: match_segment_def Let_def)
qed

lemma match_segment_None_iff: "match_segment lit s = None \<longleftrightarrow> \<not> has_segment lit s"
proof
  assume "match_segment lit s = None" then show "\<not> has_segment lit s" by (rule match_segment_None)
next
  assume n: "\<not> has_segment lit s"
  show "match_segment lit s = None"
  proof (cases "match_segment lit s")
    case None then show ?thesis .
  next
    case (Some a)
    obtain seg r where "a = (seg, r)" by (cases a)
    with Some match_segment_Some [of lit s seg r] n show ?thesis
      by (auto simp: has_segment_def)
  qed
qed

lemma match_optional_segment_spec:
  assumes "match_optional_segment lit s = (g, r)"
  shows "optional_segment_spec lit dflt s (case g of Some v \<Rightarrow> v | None \<Rightarrow> dflt) r"
proof (cases s)
  case Nil
  with assms show ?thesis by (simp add: match_optional_segment_def optional_segment_spec_def)
next
  case (Cons c cs)
  show ?thesis
  proof (cases "c = CHR ''_''")
    case False
    with assms Cons show ?thesis
      by (auto simp: match_optional_segment_def optional_segment_spec_def)
  next
    case True
    show ?thesis
    proof (cases "match_segment lit cs")
      case None
      then have "\<not> has_segment lit cs" by (rule match_segment_None)
      moreover from None assms Cons True have "g = None" "r = s"
        by (simp_all add: match_optional_segment_def)
      ultimately show ?thesis using Cons by (simp add: optional_segment_spec_def)
    next
      case (Some a)
      obtain seg r' where a: "a = (seg, r')" by (cases a)
      with Some assms Cons True have g: "g = Some seg" "r = r'"
        by (simp_all add: match_optional_segment_def)
      from match_segment_Some [of lit cs seg r'] Some a
      have "cs = seg @ r'" "is_segment lit seg" "token_ends r'" by simp_all
      with g Cons True show ?thesis by (simp add: optional_segment_spec_def)
    qed
  qed
qed

lemma pattern_match_here_None_iff: "pattern_match_here s = None \<longleftrightarrow> \<not> has_segment ''sub-'' s"
  by (auto simp: pattern_match_here_def match_segment_None_iff [symmetric]
      split: option.splits prod.splits)

lemma pattern_search_None_iff:
  "pattern_search s = None \<longleftrightarrow> (\<forall>pre s'. s = pre @ s' \<longrightarrow> \<not> has_segment ''sub-'' s')"
proof (induction s)
  case Nil
  then show ?case by (simp add: pattern_match_here_None_iff)
next
  case (Cons c cs)
  show ?case
  proof
    assume n: "pattern_search (c # cs) = None"
    then have here: "\<not> has_segment ''sub-'' (c # cs)" and rest: "pattern_search cs = None"
      by (auto simp: pattern_match_here_None_iff [symmetric] split: option.splits)
    show "\<forall>pre s'. c # cs = pre @ s' \<longrightarrow> \<not> has_segment ''sub-'' s'"
    proof (intro allI impI)
      fix pre s' assume e: "c # cs = pre @ s'"
      show "\<not> has_segment ''sub-'' s'"
      proof (cases pre)
        case Nil with e here show ?thesis by simp
      next
        case (Cons a pre')
        with e have "cs = pre' @ s'" by simp
        with rest Cons.IH show ?thesis by blast
      qed
    qed
  next
    assume a: "\<forall>pre s'. c # cs = pre @ s' \<longrightarrow> \<not> has_segment ''sub-'' s'"
    then have "\<not> has_segment ''sub-'' (c # cs)" by (metis append_Nil)
    then have h: "pattern_match_here (c # cs) = None" by (simp add: pattern_match_here_None_iff)
    have "\<forall>pre s'. cs = pre @ s' \<longrightarrow> \<not> has_segment ''sub-'' s'"
      using a by (metis append_Cons)
    with Cons.IH have "pattern_search cs = None" by simp
    with h show "pattern_search (c # cs) = None" by simp
  qed
qed

lemma pattern_search_Some:
  assumes "pattern_search s = Some m"
  shows "\<exists>pre s'. s = pre @ s' \<and> pattern_match_here s' = Some m \<and>
           (\<forall>pre' t. s = pre' @ t \<and> has_segment ''sub-'' t \<longrightarrow> length pre \<le> length pre')"
  using assms
proof (induction s)
  case Nil
  then show ?case by simp
next
  case (Cons c cs)
  show ?case
  proof (cases "pattern_match_here (c # cs)")
    case (Some a)
    with Cons.prems have "a = m" by simp
    with Some have "c # cs = [] @ (c # cs) \<and> pattern_match_here (c # cs) = Some m \<and>
       (\<forall>pre' t. c # cs = pre' @ t \<and> has_segment ''sub-'' t \<longrightarrow> length ([]::string) \<le> length pre')"
      by simp
    then show ?thesis by blast
  next
    case None
    with Cons.prems have "pattern_search cs = Some m" by simp
    from Cons.IH [OF this] obtain pre s' where
      e: "cs = pre @ s'" and h: "pattern_match_here s' = Some m" and
      l: "\<forall>pre' t. cs = pre' @ t \<and> has_segment ''sub-'' t \<longrightarrow> length pre \<le> length pre'"
      by blast
    have nh: "\<not> has_segment ''sub-'' (c # cs)"
      using None by (simp add: pattern_match_here_None_iff)
    have "\<forall>pre' t. c # cs = pre' @ t \<and> has_segment ''sub-'' t \<longrightarrow> length (c # pre) \<le> length pre'"
    proof (intro allI impI)
      fix pre' t assume a: "c # cs = pre' @ t \<and> has_segment ''sub-'' t"
      show "length (c # pre) \<le> length pre'"
      proof (cases pre')
        case Nil with a nh show ?thesis by simp
      next
        case (Cons x p)
        with a have "cs = p @ t \<and> has_segment ''sub-'' t" by simp
        with l have "length pre \<le> length p" by blast
        with Cons show ?thesis by simp
      qed
    qed
    with e h have "c # cs = (c # pre) @ s' \<and> pattern_match_here s' = Some m \<and>
       (\<forall>pre' t. c # cs = pre' @ t \<and> has_segment ''sub-'' t \<longrightarrow> length (c # pre) \<le> length pre')"
      by simp
    then show ?thesis by blast
  qed
qed


lemma pattern_match_here_Some:
  assumes "pattern_match_here s = Some (g1, g2, g3)"
  shows "\<exists>rest1 rest2 rest3.
           s = g1 @ rest1 \<and> is_segment ''sub-'' g1 \<and> token_ends rest1 \<and>
           optional_segment_spec ''ses-'' ''ses-01'' rest1 (case g2 of Some v \<Rightarrow> v | None \<Rightarrow> ''ses-01'') rest2 \<and>
           optional_segment_spec ''run-'' [] rest2 (case g3 of Some v \<Rightarrow> v | None \<Rightarrow> []) rest3"
proof -
  from assms obtain a r1 where ms: "match_segment ''sub-'' s = Some (a, r1)"
    by (auto simp: pattern_match_here_def split: option.splits)
  obtain h2 r2 where o2: "match_optional_segment ''ses-'' r1 = (h2, r2)"
    by (cases "match_optional_segment ''ses-'' r1")
  obtain h3 r3 where o3: "match_optional_segment ''run-'' r2 = (h3, r3)"
    by (cases "match_optional_segment ''run-'' r2")
  from assms ms o2 o3 have g: "g1 = a" "g2 = h2" "g3 = h3"
    by (simp_all add: pattern_match_here_def)
  from match_segment_Some [OF ms] have s: "s = a @ r1" "is_segment ''sub-'' a" "token_ends r1"
    by simp_all
  have p2: "optional_segment_spec ''ses-'' ''ses-01'' r1 (case h2 of Some v \<Rightarrow> v | None \<Rightarrow> ''ses-01'') r2"
    by (rule match_optional_segment_spec [OF o2])
  have p3: "optional_segment_spec ''run-'' [] r2 (case h3 of Some v \<Rightarrow> v | None \<Rightarrow> []) r3"
    by (rule match_optional_segment_spec [OF o3])
  show ?thesis
  proof (intro exI conjI)
    show "s = g1 @ r1" using s g by simp
    show "is_segment ''sub-'' g1" using s g by simp
    show "token_ends r1" by (rule s)
    show "optional_segment_spec ''ses-'' ''ses-01'' r1 (case g2 of Some v \<Rightarrow> v | None \<Rightarrow> ''ses-01'') r2"
      using p2 g by simp
    show "optional_segment_spec ''run-'' [] r2 (case g3 of Some v \<Rightarrow> v | None \<Rightarrow> []) r3"
      using p3 g by simp
  qed
qed

lemma scan_key_of_None_iff:
  "scan_key_of fname = None \<longleftrightarrow> (\<forall>pre s'. fname = pre @ s' \<longrightarrow> \<not> has_segment ''sub-'' s')"
proof -
  have "scan_key_of fname = None \<longleftrightarrow> pattern_search fname = None"
    by (simp add: scan_key_of_def split: option.splits prod.splits)
  then show ?thesis by (simp only: pattern_search_None_iff)
qed

lemma scan_key_of_Some:
  assumes "scan_key_of fname = Some k"
  shows "key_spec fname k"
proof -
  from assms obtain g1 g2 g3 where ps: "pattern_search fname = Some (g1, g2, g3)"
    and k: "k = (g1, (case g2 of Some s \<Rightarrow> s | None \<Rightarrow> ''ses-01''), (case g3 of Some r \<Rightarrow> r | None \<Rightarrow> []))"
    by (auto simp: scan_key_of_def split: option.splits prod.splits)
  from pattern_search_Some [OF ps] obtain pre s' where
    f: "fname = pre @ s'" and h: "pattern_match_here s' = Some (g1, g2, g3)" and
    l: "\<forall>pre' t. fname = pre' @ t \<and> has_segment ''sub-'' t \<longrightarrow> length pre \<le> length pre'"
    by blast
  from pattern_match_here_Some [OF h] obtain rest1 rest2 rest3 where
    r: "s' = g1 @ rest1" "is_segment ''sub-'' g1" "token_ends rest1"
       "optional_segment_spec ''ses-'' ''ses-01'' rest1 (case g2 of Some v \<Rightarrow> v | None \<Rightarrow> ''ses-01'') rest2"
       "optional_segment_spec ''run-'' [] rest2 (case g3 of Some v \<Rightarrow> v | None \<Rightarrow> []) rest3"
    by blast
  have "\<exists>pre rest1 rest2 rest3.
          fname = pre @ g1 @ rest1 \<and> is_segment ''sub-'' g1 \<and> token_ends rest1 \<and>
          (\<forall>pre' s'. fname = pre' @ s' \<and> has_segment ''sub-'' s' \<longrightarrow> length pre \<le> length pre') \<and>
          optional_segment_spec ''ses-'' ''ses-01'' rest1 (case g2 of Some v \<Rightarrow> v | None \<Rightarrow> ''ses-01'') rest2 \<and>
          optional_segment_spec ''run-'' [] rest2 (case g3 of Some v \<Rightarrow> v | None \<Rightarrow> []) rest3"
  proof (intro exI conjI)
    show "fname = pre @ g1 @ rest1" using f r(1) by simp
    show "is_segment ''sub-'' g1" by (rule r(2))
    show "token_ends rest1" by (rule r(3))
    show "\<forall>pre' s'. fname = pre' @ s' \<and> has_segment ''sub-'' s' \<longrightarrow> length pre \<le> length pre'" by (rule l)
    show "optional_segment_spec ''ses-'' ''ses-01'' rest1 (case g2 of Some v \<Rightarrow> v | None \<Rightarrow> ''ses-01'') rest2"
      by (rule r(4))
    show "optional_segment_spec ''run-'' [] rest2 (case g3 of Some v \<Rightarrow> v | None \<Rightarrow> []) rest3"
      by (rule r(5))
  qed
  then show ?thesis by (simp only: key_spec_def k prod.case)
qed

lemma group_file_unparsed: "scan_key_of fname = None \<Longrightarrow> group_file dirpath dm fname = dm"
  by (simp add: group_file_def Let_def)

lemmas scan_key_eval = scan_key_of_def pattern_match_here_def match_segment_def
  match_optional_segment_def lower_ascii_def

text \<open>
  Claim C3. The key of a file name is found by recognising, case-insensitively, a segment
  \<open>sub-<token>\<close> (the token a non-empty run of characters other than the underscore), at its
  leftmost occurrence, optionally followed by \<open>_ses-<token>\<close> and \<open>_run-<token>\<close>. When no
  subject segment occurs there is no key and the file leaves the grouping unchanged; an
  absent session gives \<open>ses-01\<close> and an absent run the empty string. The two file names of
  the specification give \<open>(sub-001, ses-02, run-3)\<close> and \<open>(sub-007, ses-01, "")\<close>.
\<close>

theorem scan_key_extraction:
  "(scan_key_of fname = None \<longleftrightarrow> (\<forall>pre s'. fname = pre @ s' \<longrightarrow> \<not> has_segment ''sub-'' s')) \<and>
   (\<forall>k. scan_key_of fname = Some k \<longrightarrow> key_spec fname k) \<and>
   (scan_key_of fname = None \<longrightarrow> group_file dirpath dm fname = dm) \<and>
   scan_key_of ''sub-001_ses-02_run-3_T1w.nii.gz'' = Some (''sub-001'', ''ses-02'', ''run-3'') \<and>
   scan_key_of ''sub-007_T1w.nii.gz'' = Some (''sub-007'', ''ses-01'', [])"
proof (intro conjI allI impI)
  show "scan_key_of fname = None \<longleftrightarrow> (\<forall>pre s'. fname = pre @ s' \<longrightarrow> \<not> has_segment ''sub-'' s')"
    by (rule scan_key_of_None_iff)
  show "\<And>k. scan_key_of fname = Some k \<Longrightarrow> key_spec fname k" by (rule scan_key_of_Some)
  show "scan_key_of fname = None \<Longrightarrow> group_file dirpath dm fname = dm" by (rule group_file_unparsed)
  show "scan_key_of ''sub-001_ses-02_run-3_T1w.nii.gz'' = Some (''sub-001'', ''ses-02'', ''run-3'')"
    by (simp add: scan_key_eval)
  show "scan_key_of ''sub-007_T1w.nii.gz'' = Some (''sub-007'', ''ses-01'', [])"
    by (simp add: scan_key_eval)
qed

theorem scan_key_extraction_witness:
  "scan_key_of ''SUB-12_Ses-6mo_T1w.nii.gz'' = Some (''SUB-12'', ''Ses-6mo'', []) \<and>
   (\<exists>pre rest. ''SUB-12_Ses-6mo_T1w.nii.gz'' = pre @ ''SUB-12'' @ rest \<and>
                is_segment ''sub-'' ''SUB-12'' \<and> token_ends rest) \<and>
   scan_key_of ''notes_T1w.nii.gz'' = None \<and>
   \<not> has_segment ''sub-'' ''notes_T1w.nii.gz'' \<and>
   group_file ''/r'' [] ''notes_T1w.nii.gz'' = []"
proof -
  have a: "scan_key_of ''SUB-12_Ses-6mo_T1w.nii.gz'' = Some (''SUB-12'', ''Ses-6mo'', [])"
    by (simp add: scan_key_eval)
  have b: "scan_key_of ''notes_T1w.nii.gz'' = None"
    by (simp add: scan_key_eval)
  from scan_key_extraction [of "''SUB-12_Ses-6mo_T1w.nii.gz''" "''/r''" "[]"] a
  have "key_spec ''SUB-12_Ses-6mo_T1w.nii.gz'' (''SUB-12'', ''Ses-6mo'', [])" by blast
  then have c: "\<exists>pre rest. ''SUB-12_Ses-6mo_T1w.nii.gz'' = pre @ ''SUB-12'' @ rest \<and>
                is_segment ''sub-'' ''SUB-12'' \<and> token_ends rest"
    unfolding key_spec_def prod.case by blast
  from scan_key_extraction [of "''notes_T1w.nii.gz''" "''/r''" "[]"] b
  have d: "\<forall>pre s'. ''notes_T1w.nii.gz'' = pre @ s' \<longrightarrow> \<not> has_segment ''sub-'' s'"
    and e: "group_file ''/r'' [] ''notes_T1w.nii.gz'' = []" by blast+
  from d have d': "\<not> has_segment ''sub-'' ''notes_T1w.nii.gz''" by (metis append_Nil)
  from a b c d' e show ?thesis by (intro conjI)
qed

section \<open>Ordering of the grouped output\<close>













section \<open>Ledger upsert\<close>

lemma update_rows_absent:
  "k \<notin> row_filename ` set rows \<Longrightarrow> update_rows k st rows = Inr (False, rows)"
  by (induction rows) auto

lemma update_rows_first:
  "k \<notin> row_filename ` set pre \<Longrightarrow> row_filename r = k \<Longrightarrow>
   update_rows k (Dict [''status'' \<mapsto> s, ''notes'' \<mapsto> n]) (pre @ r # post)
     = Inr (True, pre @ r\<lparr>row_notes := n, row_status := s\<rparr> # post)"
  by (induction pre) (auto simp: update_row_def)

lemma upsert_absent:
  assumes "k \<notin> row_filename ` set (ledger_rows csv)"
  shows "upsert csv k s n
     = Inr (Some (ledger_rows csv @ [\<lparr>row_filename = k, row_status = s, row_notes = n\<rparr>]))"
proof -
  have "update_rows k (Dict [''status'' \<mapsto> s, ''notes'' \<mapsto> n]) (ledger_rows csv)
      = Inr (False, ledger_rows csv)"
    by (rule update_rows_absent [OF assms])
  then show ?thesis
    by (simp add: upsert_def update_csv_def ledger_rows_def new_row_def)
qed

lemma upsert_present:
  assumes "ledger_rows csv = pre @ r # post" "k \<notin> row_filename ` set pre" "row_filename r = k"
  shows "upsert csv k s n = Inr (Some (pre @ r\<lparr>row_notes := n, row_status := s\<rparr> # post))"
proof -
  have "update_rows k (Dict [''status'' \<mapsto> s, ''notes'' \<mapsto> n]) (ledger_rows csv)
      = Inr (True, pre @ r\<lparr>row_notes := n, row_status := s\<rparr> # post)"
    unfolding assms(1) by (rule update_rows_first [OF assms(2,3)])
  then show ?thesis
    by (simp add: upsert_def update_csv_def ledger_rows_def)
qed

lemma entry_eq:
  "row_filename r = k \<Longrightarrow>
   r\<lparr>row_notes := n, row_status := s\<rparr> = \<lparr>row_filename = k, row_status = s, row_notes = n\<rparr>"
  by (cases r) simp

text \<open>One upsert on a ledger with unique keys, described in full.\<close>

lemma upsert_unique:
  assumes "unique_keys csv"
  shows "\<exists>l1. upsert csv k s n = Inr (Some l1) \<and>
     (k \<notin> row_filename ` set (ledger_rows csv) \<longrightarrow>
        l1 = ledger_rows csv @ [\<lparr>row_filename = k, row_status = s, row_notes = n\<rparr>]) \<and>
     (k \<in> row_filename ` set (ledger_rows csv) \<longrightarrow>
        l1 = map (\<lambda>r. if row_filename r = k
                       then \<lparr>row_filename = k, row_status = s, row_notes = n\<rparr> else r)
               (ledger_rows csv)) \<and>
     filter (\<lambda>r. row_filename r = k) l1 = [\<lparr>row_filename = k, row_status = s, row_notes = n\<rparr>] \<and>
     filter (\<lambda>r. row_filename r \<noteq> k) l1 = filter (\<lambda>r. row_filename r \<noteq> k) (ledger_rows csv) \<and>
     unique_keys (Some l1)"
proof (cases "k \<in> row_filename ` set (ledger_rows csv)")
  case False
  let ?e = "\<lparr>row_filename = k, row_status = s, row_notes = n\<rparr>"
  let ?l = "ledger_rows csv @ [?e]"
  have u: "upsert csv k s n = Inr (Some ?l)" by (rule upsert_absent [OF False])
  have f1: "filter (\<lambda>r. row_filename r = k) (ledger_rows csv) = []"
    using False by (auto simp: filter_empty_conv)
  have f2: "filter (\<lambda>r. row_filename r \<noteq> k) (ledger_rows csv) = ledger_rows csv"
    using False by (auto simp: filter_id_conv)
  have d: "unique_keys (Some ?l)"
    using assms False by (auto simp: unique_keys_def ledger_rows_def)
  show ?thesis
  proof (intro exI conjI impI)
    show "upsert csv k s n = Inr (Some ?l)" by (rule u)
    show "?l = ledger_rows csv @ [?e]" by simp
    show "filter (\<lambda>r. row_filename r = k) ?l = [?e]" using f1 by simp
    show "filter (\<lambda>r. row_filename r \<noteq> k) ?l = filter (\<lambda>r. row_filename r \<noteq> k) (ledger_rows csv)"
      by simp
    show "unique_keys (Some ?l)" by (rule d)
  next
    assume "k \<in> row_filename ` set (ledger_rows csv)"
    with False show "?l = map (\<lambda>r. if row_filename r = k then ?e else r) (ledger_rows csv)" by simp
  qed
next
  case True
  let ?e = "\<lparr>row_filename = k, row_status = s, row_notes = n\<rparr>"
  from True obtain r where "r \<in> set (ledger_rows csv)" "row_filename r = k" by auto
  then obtain pre post where sp: "ledger_rows csv = pre @ r # post" by (auto dest: split_list)
  have dist: "distinct (map row_filename (pre @ r # post))"
    using assms sp by (simp add: unique_keys_def)
  have rk: "row_filename r = k" by fact
  have npre: "k \<notin> row_filename ` set pre" using dist rk by auto
  have npost: "k \<notin> row_filename ` set post" using dist rk by auto
  let ?l = "pre @ ?e # post"
  have "upsert csv k s n = Inr (Some (pre @ r\<lparr>row_notes := n, row_status := s\<rparr> # post))"
    by (rule upsert_present [OF sp npre rk])
  then have u: "upsert csv k s n = Inr (Some ?l)" by (simp only: entry_eq [OF rk])
  have mpre: "map (\<lambda>r. if row_filename r = k then ?e else r) pre = pre"
    using npre by (induction pre) auto
  have mpost: "map (\<lambda>r. if row_filename r = k then ?e else r) post = post"
    using npost by (induction post) auto
  have fpre: "filter (\<lambda>r. row_filename r = k) pre = []" using npre by (auto simp: filter_empty_conv)
  have fpost: "filter (\<lambda>r. row_filename r = k) post = []" using npost by (auto simp: filter_empty_conv)
  have d: "unique_keys (Some ?l)"
    using dist rk by (simp add: unique_keys_def ledger_rows_def)
  show ?thesis
  proof (intro exI conjI impI)
    show "upsert csv k s n = Inr (Some ?l)" by (rule u)
    show "?l = map (\<lambda>r. if row_filename r = k then ?e else r) (ledger_rows csv)"
      using mpre mpost rk by (simp add: sp)
    show "filter (\<lambda>r. row_filename r = k) ?l = [?e]" using fpre fpost by simp
    show "filter (\<lambda>r. row_filename r \<noteq> k) ?l = filter (\<lambda>r. row_filename r \<noteq> k) (ledger_rows csv)"
      using rk by (simp add: sp)
    show "unique_keys (Some ?l)" by (rule d)
  next
    assume "k \<notin> row_filename ` set (ledger_rows csv)"
    with True show "?l = ledger_rows csv @ [?e]" by simp
  qed
qed

lemma upsert_again:
  assumes "unique_keys (Some l1)"
    and "filter (\<lambda>r. row_filename r = k) l1 = [\<lparr>row_filename = k, row_status = s, row_notes = n\<rparr>]"
  shows "upsert (Some l1) k s n = Inr (Some l1)"
proof -
  let ?e = "\<lparr>row_filename = k, row_status = s, row_notes = n\<rparr>"
  have lr: "ledger_rows (Some l1) = l1" by (simp add: ledger_rows_def)
  have "?e \<in> set (filter (\<lambda>r. row_filename r = k) l1)" by (simp only: assms(2)) simp
  then have mem: "k \<in> row_filename ` set (ledger_rows (Some l1))"
    by (auto simp: lr intro: rev_image_eqI)
  from upsert_unique [OF assms(1), of k s n] mem obtain l2 where
    u: "upsert (Some l1) k s n = Inr (Some l2)" and
    m: "l2 = map (\<lambda>r. if row_filename r = k then ?e else r) (ledger_rows (Some l1))"
    by blast
  have "\<And>r. r \<in> set l1 \<Longrightarrow> (if row_filename r = k then ?e else r) = r"
  proof -
    fix r assume r: "r \<in> set l1"
    show "(if row_filename r = k then ?e else r) = r"
    proof (cases "row_filename r = k")
      case True
      with r have "r \<in> set (filter (\<lambda>r. row_filename r = k) l1)" by simp
      then have "r = ?e" by (simp only: assms(2)) simp
      then show ?thesis by simp
    next
      case False then show ?thesis by simp
    qed
  qed
  then have "map (\<lambda>r. if row_filename r = k then ?e else r) l1 = l1" by (simp add: map_idI)
  with m lr have "l2 = l1" by simp
  with u show ?thesis by simp
qed

text \<open>
  Claim C5. On a ledger with at most one entry per file name (the invariant of the data
  model, which every upsert keeps), \<open>upsert\<close> does not raise; it appends a new entry when the
  key is absent and otherwise replaces status and notes of the entry with that key, leaving
  every other entry as it was; afterwards the ledger has exactly one entry for the key, with
  the given status and notes; repeating the call changes nothing. In particular
  \<open>upsert("a.png", "GOOD", "")\<close> followed by \<open>upsert("a.png", "BAD", "x")\<close> leaves exactly one
  entry for \<open>a.png\<close>, with status \<open>BAD\<close> and notes \<open>x\<close>.
\<close>

theorem ledger_upsert:
  assumes "unique_keys csv"
  shows "(\<exists>l1. upsert csv k s n = Inr (Some l1) \<and>
     (k \<notin> row_filename ` set (ledger_rows csv) \<longrightarrow>
        l1 = ledger_rows csv @ [\<lparr>row_filename = k, row_status = s, row_notes = n\<rparr>]) \<and>
     (k \<in> row_filename ` set (ledger_rows csv) \<longrightarrow>
        l1 = map (\<lambda>r. if row_filename r = k
                       then \<lparr>row_filename = k, row_status = s, row_notes = n\<rparr> else r)
               (ledger_rows csv)) \<and>
     filter (\<lambda>r. row_filename r = k) l1 = [\<lparr>row_filename = k, row_status = s, row_notes = n\<rparr>] \<and>
     filter (\<lambda>r. row_filename r \<noteq> k) l1 = filter (\<lambda>r. row_filename r \<noteq> k) (ledger_rows csv) \<and>
     unique_keys (Some l1) \<and>
     upsert (Some l1) k s n = Inr (Some l1)) \<and>
   (\<exists>l2 l3. upsert csv ''a.png'' ''GOOD'' [] = Inr (Some l2) \<and>
      upsert (Some l2) ''a.png'' ''BAD'' ''x'' = Inr (Some l3) \<and>
      filter (\<lambda>r. row_filename r = ''a.png'') l3
        = [\<lparr>row_filename = ''a.png'', row_status = ''BAD'', row_notes = ''x''\<rparr>])"
proof
  from upsert_unique [OF assms, of k s n] obtain l1 where
    a: "upsert csv k s n = Inr (Some l1)" and
    b: "k \<notin> row_filename ` set (ledger_rows csv) \<longrightarrow>
        l1 = ledger_rows csv @ [\<lparr>row_filename = k, row_status = s, row_notes = n\<rparr>]" and
    c: "k \<in> row_filename ` set (ledger_rows csv) \<longrightarrow>
        l1 = map (\<lambda>r. if row_filename r = k
                       then \<lparr>row_filename = k, row_status = s, row_notes = n\<rparr> else r)
               (ledger_rows csv)" and
    d: "filter (\<lambda>r. row_filename r = k) l1 = [\<lparr>row_filename = k, row_status = s, row_notes = n\<rparr>]" and
    e: "filter (\<lambda>r. row_filename r \<noteq> k) l1 = filter (\<lambda>r. row_filename r \<noteq> k) (ledger_rows csv)" and
    f: "unique_keys (Some l1)"
    by blast
  have g: "upsert (Some l1) k s n = Inr (Some l1)" by (rule upsert_again [OF f d])
  from a b c d e f g show "\<exists>l1. upsert csv k s n = Inr (Some l1) \<and>
     (k \<notin> row_filename ` set (ledger_rows csv) \<longrightarrow>
        l1 = ledger_rows csv @ [\<lparr>row_filename = k, row_status = s, row_notes = n\<rparr>]) \<and>
     (k \<in> row_filename ` set (ledger_rows csv) \<longrightarrow>
        l1 = map (\<lambda>r. if row_filename r = k
                       then \<lparr>row_filename = k, row_status = s, row_notes = n\<rparr> else r)
               (ledger_rows csv)) \<and>
     filter (\<lambda>r. row_filename r = k) l1 = [\<lparr>row_filename = k, row_status = s, row_notes = n\<rparr>] \<and>
     filter (\<lambda>r. row_filename r \<noteq> k) l1 = filter (\<lambda>r. row_filename r \<noteq> k) (ledger_rows csv) \<and>
     unique_keys (Some l1) \<and>
     upsert (Some l1) k s n = Inr (Some l1)"
    by (intro exI [of _ l1] conjI)
next
  from upsert_unique [OF assms, of "''a.png''" "''GOOD''" "[]"] obtain l2 where
    a: "upsert csv ''a.png'' ''GOOD'' [] = Inr (Some l2)" and f: "unique_keys (Some l2)"
    by blast
  from upsert_unique [OF f, of "''a.png''" "''BAD''" "''x''"] obtain l3 where
    b: "upsert (Some l2) ''a.png'' ''BAD'' ''x'' = Inr (Some l3)" and
    d: "filter (\<lambda>r. row_filename r = ''a.png'') l3
        = [\<lparr>row_filename = ''a.png'', row_status = ''BAD'', row_notes = ''x''\<rparr>]"
    by blast
  from a b d show "\<exists>l2 l3. upsert csv ''a.png'' ''GOOD'' [] = Inr (Some l2) \<and>
      upsert (Some l2) ''a.png'' ''BAD'' ''x'' = Inr (Some l3) \<and>
      filter (\<lambda>r. row_filename r = ''a.png'') l3
        = [\<lparr>row_filename = ''a.png'', row_status = ''BAD'', row_notes = ''x''\<rparr>]"
    by (intro exI [of _ l2] exI [of _ l3] conjI)
qed

lemmas ledger_eval = upsert_def update_csv_def update_row_def new_row_def ledger_rows_def
  unique_keys_def

theorem ledger_upsert_witness:
  "unique_keys (Some [\<lparr>row_filename = ''b.png'', row_status = ''GOOD'', row_notes = []\<rparr>]) \<and>
   upsert (Some [\<lparr>row_filename = ''b.png'', row_status = ''GOOD'', row_notes = []\<rparr>])
       ''a.png'' ''GOOD'' []
     = Inr (Some [\<lparr>row_filename = ''b.png'', row_status = ''GOOD'', row_notes = []\<rparr>,
                  \<lparr>row_filename = ''a.png'', row_status = ''GOOD'', row_notes = []\<rparr>]) \<and>
   upsert (Some [\<lparr>row_filename = ''b.png'', row_status = ''GOOD'', row_notes = []\<rparr>,
                 \<lparr>row_filename = ''a.png'', row_status = ''GOOD'', row_notes = []\<rparr>])
       ''a.png'' ''BAD'' ''x''
     = Inr (Some [\<lparr>row_filename = ''b.png'', row_status = ''GOOD'', row_notes = []\<rparr>,
                  \<lparr>row_filename = ''a.png'', row_status = ''BAD'', row_notes = ''x''\<rparr>]) \<and>
   (\<exists>l2 l3. upsert (Some [\<lparr>row_filename = ''b.png'', row_status = ''GOOD'', row_notes = []\<rparr>])
                ''a.png'' ''GOOD'' [] = Inr (Some l2) \<and>
      upsert (Some l2) ''a.png'' ''BAD'' ''x'' = Inr (Some l3) \<and>
      filter (\<lambda>r. row_filename r = ''a.png'') l3
        = [\<lparr>row_filename = ''a.png'', row_status = ''BAD'', row_notes = ''x''\<rparr>])"
proof -
  let ?csv = "Some [\<lparr>row_filename = ''b.png'', row_status = ''GOOD'', row_notes = []\<rparr>]"
  have h: "unique_keys ?csv" by (simp add: ledger_eval)
  have a: "upsert ?csv ''a.png'' ''GOOD'' []
     = Inr (Some [\<lparr>row_filename = ''b.png'', row_status = ''GOOD'', row_notes = []\<rparr>,
                  \<lparr>row_filename = ''a.png'', row_status = ''GOOD'', row_notes = []\<rparr>])"
    by (simp add: ledger_eval)
  have b: "upsert (Some [\<lparr>row_filename = ''b.png'', row_status = ''GOOD'', row_notes = []\<rparr>,
                 \<lparr>row_filename = ''a.png'', row_status = ''GOOD'', row_notes = []\<rparr>])
       ''a.png'' ''BAD'' ''x''
     = Inr (Some [\<lparr>row_filename = ''b.png'', row_status = ''GOOD'', row_notes = []\<rparr>,
                  \<lparr>row_filename = ''a.png'', row_status = ''BAD'', row_notes = ''x''\<rparr>])"
    by (simp add: ledger_eval)
  from ledger_upsert [OF h, of "''a.png''" "''GOOD''" "[]"] have
    c: "\<exists>l2 l3. upsert ?csv ''a.png'' ''GOOD'' [] = Inr (Some l2) \<and>
      upsert (Some l2) ''a.png'' ''BAD'' ''x'' = Inr (Some l3) \<and>
      filter (\<lambda>r. row_filename r = ''a.png'') l3
        = [\<lparr>row_filename = ''a.png'', row_status = ''BAD'', row_notes = ''x''\<rparr>]"
    by (rule conjunct2)
  from h a b c show ?thesis by (intro conjI)
qed

section \<open>Slice selection: the two pipelines agree\<close>

text \<open>
  Claim C8. The function \<open>find_slices_of_interest\<close> of the initial pipeline and the function
  of the same name of the final pipeline return the same result (the same index sequence,
  or the same exception) for every volume and every target count.
\<close>

theorem find_slices_initial_final_equal:
  "find_slices_of_interest_final data num_slices = find_slices_of_interest data num_slices"
  by (simp add: find_slices_of_interest_final_def find_slices_of_interest_def
      start_idx_def end_idx_def Let_def split: sum.splits)

section \<open>Rendering a malformed statistics record\<close>










section \<open>Statistics failures in the initial pass\<close>

lemmas example_slices_eval = find_slices_of_interest_def example_volume_def np_sum_axis01_def
  np_argmax_def np_linspace_int_def np_unique_def start_idx_def end_idx_def Let_def upt_rec

lemma example_slices: "find_slices_of_interest example_volume 3 = Inr [0, 1, 3]"
  by (simp add: example_slices_eval)

lemmas pipeline_eval = process_scan_initial_def stats_and_density_def analyze_nifti_def
  analyze_body_def results_dir_of_def os_path_join_def os_path_basename_def os_path_dirname_def
  strip_nii_gz_def suffix_to_prefix

lemma analyze_nifti_returns: "\<exists>d. fst (analyze_nifti env filepath tr) = Inr d"
  by (simp add: analyze_nifti_def split: sum.splits)

lemma analyze_nifti_empty:
  "analyze_body env filepath = Inl e \<Longrightarrow>
   analyze_nifti env filepath tr
     = (Inr None, tr @ [LogError (''analyze_nifti failed for '' @ filepath @ '': '' @ error_text env e)])"
  by (simp add: analyze_nifti_def)

lemma stats_and_density_skip:
  assumes "analyze_body env filepath = Inl e"
  shows "stats_and_density env filepath results_dir base data tr
     = (None, tr @ [LogError (''analyze_nifti failed for '' @ filepath @ '': '' @ error_text env e),
                    LogInfo (''[Initial QC] Finished processing '' @ filepath @ ''.'' @ [CHR 0x0A])])"
  by (simp add: stats_and_density_def analyze_nifti_empty [OF assms])

lemma process_scan_initial_unloadable:
  "nib_load env filepath = Inl e \<Longrightarrow>
   process_scan_initial env bids_root filepath num_slices tr = (Some e, tr @ [Processing filepath])"
  by (simp add: process_scan_initial_def Let_def)

lemma process_scan_initial_skip:
  assumes "nib_load env filepath = Inr data" "np_stats env data = Inl e"
    "find_slices_of_interest data num_slices = Inr idx"
    "makedirs env (results_dir_of env bids_root filepath) = None"
    "plot_slices env data idx
       (os_path_join (results_dir_of env bids_root filepath)
          (strip_nii_gz (os_path_basename filepath) @ ''_original_slices.png'')) = None"
  shows "process_scan_initial env bids_root filepath num_slices tr
     = (None, tr @ [Processing filepath, MakeDirs (results_dir_of env bids_root filepath),
          SavePng (os_path_join (results_dir_of env bids_root filepath)
                     (strip_nii_gz (os_path_basename filepath) @ ''_original_slices.png'')),
          LogError (''analyze_nifti failed for '' @ filepath @ '': '' @ error_text env e),
          LogInfo (''[Initial QC] Finished processing '' @ filepath @ ''.'' @ [CHR 0x0A])])"
proof -
  have ab: "analyze_body env filepath = Inl e"
    using assms(1,2) by (simp add: analyze_body_def)
  show ?thesis
    using assms by (simp add: process_scan_initial_def Let_def stats_and_density_skip [OF ab])
qed

lemma stats_and_density_skip_general:
  assumes "fst (analyze_nifti env filepath tr) = Inr None"
  shows "\<exists>tr'. stats_and_density env filepath results_dir base data tr = (None, tr') \<and>
               filter writes_statistics tr' = filter writes_statistics tr"
proof (cases "analyze_body env filepath")
  case (Inl e)
  then show ?thesis by (simp add: stats_and_density_skip)
next
  case (Inr st)
  with assms show ?thesis by (simp add: analyze_nifti_def)
qed

text \<open>
  Claim C6, as stated, fails for a volume that cannot be loaded: \<open>analyze_nifti\<close> does return
  the empty result for it, but \<open>process_scan_initial\<close> loads the volume itself, outside any
  \<open>try\<close>, before it asks for the statistics; the exception leaves the caller and ends the
  traversal, so the next scan is not processed either.
\<close>

theorem analyze_nifti_caller_counterexample:
  "nib_load unloadable_env ''/data/sub-1_T1w.nii'' = Inl OSError \<and>
   fst (analyze_nifti unloadable_env ''/data/sub-1_T1w.nii'' []) = Inr None \<and>
   process_scan_initial unloadable_env ''/data'' ''/data/sub-1_T1w.nii'' 3 []
     = (Some OSError, [Processing ''/data/sub-1_T1w.nii'']) \<and>
   traverse_bids_initial unloadable_env [(''/data'', [], [''sub-1_T1w.nii'', ''sub-2_T1w.nii''])]
       ''/data'' ''T1w'' 3
     = (Some OSError,
        [LogInfo ''[Initial QC] Starting traversal of /data for scan type T1w...'',
         Processing ''/data/sub-1_T1w.nii''])"
proof -
  have a: "nib_load unloadable_env ''/data/sub-1_T1w.nii'' = Inl OSError"
    by (simp add: unloadable_env_def)
  have b: "fst (analyze_nifti unloadable_env ''/data/sub-1_T1w.nii'' []) = Inr None"
    by (simp add: analyze_nifti_def analyze_body_def a)
  have c: "\<And>tr. process_scan_initial unloadable_env ''/data'' ''/data/sub-1_T1w.nii'' 3 tr
     = (Some OSError, tr @ [Processing ''/data/sub-1_T1w.nii''])"
    by (rule process_scan_initial_unloadable [OF a])
  have j: "os_path_join ''/data'' ''sub-1_T1w.nii'' = ''/data/sub-1_T1w.nii''"
    by (simp add: os_path_join_def suffix_to_prefix)
  have s: "is_scan_file ''T1w'' ''sub-1_T1w.nii''"
    by (simp add: is_scan_file_def suffix_to_prefix sublist_Cons_right)
  have r: "\<not> sublist ''results'' ''/data''" by (simp add: sublist_Cons_right)
  have d: "traverse_bids_initial unloadable_env [(''/data'', [], [''sub-1_T1w.nii'', ''sub-2_T1w.nii''])]
       ''/data'' ''T1w'' 3
     = (Some OSError,
        [LogInfo ''[Initial QC] Starting traversal of /data for scan type T1w...'',
         Processing ''/data/sub-1_T1w.nii''])"
    by (simp add: traverse_bids_initial_def r s j c)
  from a b c [of "[]"] d show ?thesis by simp
qed

text \<open>
  Claim C6, amended. \<open>analyze_nifti\<close> never raises: when the volume cannot be loaded or its
  statistics cannot be computed it returns the empty result. When the per-scan caller gets
  the empty result, it writes neither the statistics record nor the density plot and
  returns normally; this is what happens when the caller's own load, slice selection,
  directory creation and plot have succeeded and the statistics fail.
\<close>

theorem analyze_nifti_never_raises:
  "(\<exists>d. fst (analyze_nifti env filepath tr) = Inr d) \<and>
   (nib_load env filepath = Inl e \<longrightarrow> fst (analyze_nifti env filepath tr) = Inr None) \<and>
   (nib_load env filepath = Inr data \<and> np_stats env data = Inl e \<longrightarrow>
      fst (analyze_nifti env filepath tr) = Inr None) \<and>
   (fst (analyze_nifti env filepath tr) = Inr None \<longrightarrow>
      (\<exists>tr'. stats_and_density env filepath results_dir base data tr = (None, tr') \<and>
             filter writes_statistics tr' = filter writes_statistics tr)) \<and>
   (nib_load env filepath = Inr data \<and> np_stats env data = Inl e \<and>
    find_slices_of_interest data num_slices = Inr idx \<and>
    makedirs env (results_dir_of env bids_root filepath) = None \<and>
    plot_slices env data idx
       (os_path_join (results_dir_of env bids_root filepath)
          (strip_nii_gz (os_path_basename filepath) @ ''_original_slices.png'')) = None \<longrightarrow>
      (\<exists>tr'. process_scan_initial env bids_root filepath num_slices tr = (None, tr') \<and>
             filter writes_statistics tr' = filter writes_statistics tr))"
proof (intro conjI impI)
  show "\<exists>d. fst (analyze_nifti env filepath tr) = Inr d" by (rule analyze_nifti_returns)
  show "nib_load env filepath = Inl e \<Longrightarrow> fst (analyze_nifti env filepath tr) = Inr None"
    by (simp add: analyze_nifti_def analyze_body_def)
  show "nib_load env filepath = Inr data \<and> np_stats env data = Inl e \<Longrightarrow>
      fst (analyze_nifti env filepath tr) = Inr None"
    by (simp add: analyze_nifti_def analyze_body_def)
  show "fst (analyze_nifti env filepath tr) = Inr None \<Longrightarrow>
      \<exists>tr'. stats_and_density env filepath results_dir base data tr = (None, tr') \<and>
             filter writes_statistics tr' = filter writes_statistics tr"
    by (rule stats_and_density_skip_general)
next
  assume a: "nib_load env filepath = Inr data \<and> np_stats env data = Inl e \<and>
    find_slices_of_interest data num_slices = Inr idx \<and>
    makedirs env (results_dir_of env bids_root filepath) = None \<and>
    plot_slices env data idx
       (os_path_join (results_dir_of env bids_root filepath)
          (strip_nii_gz (os_path_basename filepath) @ ''_original_slices.png'')) = None"
  then have "process_scan_initial env bids_root filepath num_slices tr
     = (None, tr @ [Processing filepath, MakeDirs (results_dir_of env bids_root filepath),
          SavePng (os_path_join (results_dir_of env bids_root filepath)
                     (strip_nii_gz (os_path_basename filepath) @ ''_original_slices.png'')),
          LogError (''analyze_nifti failed for '' @ filepath @ '': '' @ error_text env e),
          LogInfo (''[Initial QC] Finished processing '' @ filepath @ ''.'' @ [CHR 0x0A])])"
    using process_scan_initial_skip [of env filepath data e num_slices idx bids_root tr] by blast
  then show "\<exists>tr'. process_scan_initial env bids_root filepath num_slices tr = (None, tr') \<and>
             filter writes_statistics tr' = filter writes_statistics tr"
    by simp
qed

theorem analyze_nifti_never_raises_witness:
  "nib_load malformed_env ''/data/sub-1_T1w.nii'' = Inr example_volume \<and>
   np_stats malformed_env example_volume = Inl ValueError \<and>
   find_slices_of_interest example_volume 3 = Inr [0, 1, 3] \<and>
   fst (analyze_nifti malformed_env ''/data/sub-1_T1w.nii'' []) = Inr None \<and>
   (\<exists>tr'. process_scan_initial malformed_env ''/data'' ''/data/sub-1_T1w.nii'' 3 [] = (None, tr') \<and>
          filter writes_statistics tr' = []) \<and>
   nib_load unloadable_env ''/data/sub-1_T1w.nii'' = Inl OSError \<and>
   fst (analyze_nifti unloadable_env ''/data/sub-1_T1w.nii'' []) = Inr None"
proof -
  have h1: "nib_load malformed_env ''/data/sub-1_T1w.nii'' = Inr example_volume"
    by (simp add: malformed_env_def unloadable_env_def)
  have h2: "np_stats malformed_env example_volume = Inl ValueError"
    by (simp add: malformed_env_def unloadable_env_def)
  have h3: "find_slices_of_interest example_volume 3 = Inr [0, 1, 3]" by (rule example_slices)
  have h4: "makedirs malformed_env (results_dir_of malformed_env ''/data'' ''/data/sub-1_T1w.nii'') = None"
    by (simp add: malformed_env_def unloadable_env_def)
  have h5: "plot_slices malformed_env example_volume [0, 1, 3]
       (os_path_join (results_dir_of malformed_env ''/data'' ''/data/sub-1_T1w.nii'')
          (strip_nii_gz (os_path_basename ''/data/sub-1_T1w.nii'') @ ''_original_slices.png'')) = None"
    by (simp add: malformed_env_def unloadable_env_def)
  have h6: "nib_load unloadable_env ''/data/sub-1_T1w.nii'' = Inl OSError"
    by (simp add: unloadable_env_def)
  note t1 = analyze_nifti_never_raises [of malformed_env "''/data/sub-1_T1w.nii''" "[]" ValueError
      example_volume _ _ 3 "[0, 1, 3]" "''/data''"]
  note t2 = analyze_nifti_never_raises [of unloadable_env "''/data/sub-1_T1w.nii''" "[]" OSError
      _ _ _ 3 _ "''/data''"]
  from t1 h1 h2 have a: "fst (analyze_nifti malformed_env ''/data/sub-1_T1w.nii'' []) = Inr None"
    by blast
  from t1 h1 h2 h3 h4 h5
  have b: "\<exists>tr'. process_scan_initial malformed_env ''/data'' ''/data/sub-1_T1w.nii'' 3 [] = (None, tr') \<and>
          filter writes_statistics tr' = []"
    by simp
  from t2 h6 have c: "fst (analyze_nifti unloadable_env ''/data/sub-1_T1w.nii'' []) = Inr None"
    by blast
  from h1 h2 h3 a b h6 c show ?thesis by (intro conjI)
qed

section \<open>Directories whose path contains \<open>results\<close> are skipped\<close>

lemma stats_and_density_processing:
  "Processing p \<in> set (snd (stats_and_density env filepath rd base data tr))
     \<longleftrightarrow> Processing p \<in> set tr"
  by (auto simp: stats_and_density_def analyze_nifti_def Let_def
      split: sum.splits option.splits)

lemma process_scan_initial_processing:
  "Processing p \<in> set (snd (process_scan_initial env bids_root filepath n tr))
     \<longleftrightarrow> Processing p \<in> set tr \<or> p = filepath"
  by (auto simp: process_scan_initial_def stats_and_density_processing Let_def
      split: sum.splits option.splits)

lemma skull_stripped_file_processing:
  "skull_stripped_file env filepath sp tr = Inl tr' \<Longrightarrow>
     (Processing p \<in> set tr' \<longleftrightarrow> Processing p \<in> set tr)"
  "skull_stripped_file env filepath sp tr = Inr (sp', tr') \<Longrightarrow>
     (Processing p \<in> set tr' \<longleftrightarrow> Processing p \<in> set tr)"
  by (auto simp: skull_stripped_file_def Let_def split: if_splits option.splits)

lemma process_scan_final_processing:
  "Processing p \<in> set (snd (process_scan_final env bids_root filepath n tr))
     \<longleftrightarrow> Processing p \<in> set tr \<or> p = filepath"
proof -
  let ?sp = "os_path_join (os_path_dirname filepath)
      (splitext_root (splitext_root (os_path_basename filepath)) @ ''_skullstripped.nii.gz'')"
  show ?thesis
  proof (cases "skull_stripped_file env filepath ?sp (tr @ [Processing filepath])")
    case (Inl tr')
    from skull_stripped_file_processing(1) [OF Inl, of p] Inl show ?thesis
      by (auto simp: process_scan_final_def Let_def)
  next
    case (Inr a)
    obtain sp' tr' where a: "a = (sp', tr')" by (cases a)
    from skull_stripped_file_processing(2) [OF Inr [unfolded a], of p] Inr a show ?thesis
      by (auto simp: process_scan_final_def Let_def split: sum.splits)
  qed
qed

lemma initial_files_processing:
  "Processing p \<in> set (snd (initial_files env bids_root scan_type n dirpath files tr)) \<Longrightarrow>
   Processing p \<in> set tr \<or> (\<exists>f\<in>set files. p = os_path_join dirpath f)"
proof (induction files arbitrary: tr)
  case Nil
  then show ?case by simp
next
  case (Cons fname files)
  show ?case
  proof (cases "is_scan_file scan_type fname")
    case False
    with Cons.prems have "Processing p \<in> set (snd (initial_files env bids_root scan_type n dirpath files tr))"
      by simp
    from Cons.IH [OF this] show ?thesis by auto
  next
    case True
    obtain r tr1 where ps: "process_scan_initial env bids_root (os_path_join dirpath fname) n tr = (r, tr1)"
      by (cases "process_scan_initial env bids_root (os_path_join dirpath fname) n tr")
    have tr1: "Processing p \<in> set tr1 \<longleftrightarrow> Processing p \<in> set tr \<or> p = os_path_join dirpath fname"
      using process_scan_initial_processing [of p env bids_root "os_path_join dirpath fname" n tr] ps
      by simp
    show ?thesis
    proof (cases r)
      case (Some e)
      with Cons.prems True ps have "Processing p \<in> set tr1" by simp
      with tr1 show ?thesis by auto
    next
      case None
      with Cons.prems True ps
      have "Processing p \<in> set (snd (initial_files env bids_root scan_type n dirpath files tr1))"
        by simp
      from Cons.IH [OF this] tr1 show ?thesis by auto
    qed
  qed
qed

lemma final_files_processing:
  "Processing p \<in> set (snd (final_files env acc bids_root scan_type n dirpath files tr)) \<Longrightarrow>
   Processing p \<in> set tr \<or> (\<exists>f\<in>set files. p = os_path_join dirpath f)"
proof (induction files arbitrary: tr)
  case Nil
  then show ?case by simp
next
  case (Cons fname files)
  show ?case
  proof (cases "is_scan_file scan_type fname")
    case False
    with Cons.prems have "Processing p \<in> set (snd (final_files env acc bids_root scan_type n dirpath files tr))"
      by simp
    from Cons.IH [OF this] show ?thesis by auto
  next
    case True
    show ?thesis
    proof (cases "extract_sub_ses (os_path_join dirpath fname) \<in> set (map (\<lambda>(a, b). (Some a, Some b)) acc)")
      case False
      let ?tr = "tr @ [LogInfo (''Skipping '' @ os_path_join dirpath fname @ '' (not in accepted list).'')]"
      from Cons.prems True False
      have "Processing p \<in> set (snd (final_files env acc bids_root scan_type n dirpath files ?tr))"
        by (simp add: Let_def)
      from Cons.IH [OF this] show ?thesis by auto
    next
      case acc: True
      obtain r tr1 where ps: "process_scan_final env bids_root (os_path_join dirpath fname) n tr = (r, tr1)"
        by (cases "process_scan_final env bids_root (os_path_join dirpath fname) n tr")
      have tr1: "Processing p \<in> set tr1 \<longleftrightarrow> Processing p \<in> set tr \<or> p = os_path_join dirpath fname"
        using process_scan_final_processing [of p env bids_root "os_path_join dirpath fname" n tr] ps
        by simp
      show ?thesis
      proof (cases r)
        case (Some e)
        with Cons.prems True acc ps have "Processing p \<in> set tr1" by (simp add: Let_def)
        with tr1 show ?thesis by auto
      next
        case None
        with Cons.prems True acc ps
        have "Processing p \<in> set (snd (final_files env acc bids_root scan_type n dirpath files tr1))"
          by (simp add: Let_def)
        from Cons.IH [OF this] tr1 show ?thesis by auto
      qed
    qed
  qed
qed

lemma from_visited_dir_Cons:
  "from_visited_dir w p \<Longrightarrow> from_visited_dir (x # w) p"
  by (auto simp: from_visited_dir_def)

lemma from_visited_dir_here:
  "\<not> sublist ''results'' d \<Longrightarrow> f \<in> set fs \<Longrightarrow> from_visited_dir ((d, ds, fs) # w) (os_path_join d f)"
  by (auto simp: from_visited_dir_def)

lemma initial_walk_processing:
  "Processing p \<in> set (snd (initial_walk env bids_root scan_type n w tr)) \<Longrightarrow>
   Processing p \<in> set tr \<or> from_visited_dir w p"
proof (induction w arbitrary: tr)
  case Nil
  then show ?case by simp
next
  case (Cons x w)
  obtain d ds fs where x: "x = (d, ds, fs)" by (cases x)
  show ?case
  proof (cases "sublist ''results'' d")
    case True
    with Cons.prems x have "Processing p \<in> set (snd (initial_walk env bids_root scan_type n w tr))"
      by simp
    from Cons.IH [OF this] show ?thesis by (auto intro: from_visited_dir_Cons)
  next
    case False
    obtain r tr1 where fl: "initial_files env bids_root scan_type n d fs tr = (r, tr1)"
      by (cases "initial_files env bids_root scan_type n d fs tr")
    have tr1: "Processing p \<in> set tr1 \<Longrightarrow> Processing p \<in> set tr \<or> from_visited_dir (x # w) p"
      using initial_files_processing [of p env bids_root scan_type n d fs tr] fl False x
      by (auto intro: from_visited_dir_here)
    show ?thesis
    proof (cases r)
      case (Some e)
      with Cons.prems x False fl have "Processing p \<in> set tr1" by simp
      then show ?thesis by (rule tr1)
    next
      case None
      with Cons.prems x False fl
      have "Processing p \<in> set (snd (initial_walk env bids_root scan_type n w tr1))" by simp
      from Cons.IH [OF this] tr1 show ?thesis by (auto intro: from_visited_dir_Cons)
    qed
  qed
qed

lemma final_walk_processing:
  "Processing p \<in> set (snd (final_walk env acc bids_root scan_type n w tr)) \<Longrightarrow>
   Processing p \<in> set tr \<or> from_visited_dir w p"
proof (induction w arbitrary: tr)
  case Nil
  then show ?case by simp
next
  case (Cons x w)
  obtain d ds fs where x: "x = (d, ds, fs)" by (cases x)
  show ?case
  proof (cases "sublist ''results'' d")
    case True
    with Cons.prems x have "Processing p \<in> set (snd (final_walk env acc bids_root scan_type n w tr))"
      by simp
    from Cons.IH [OF this] show ?thesis by (auto intro: from_visited_dir_Cons)
  next
    case False
    obtain r tr1 where fl: "final_files env acc bids_root scan_type n d fs tr = (r, tr1)"
      by (cases "final_files env acc bids_root scan_type n d fs tr")
    have tr1: "Processing p \<in> set tr1 \<Longrightarrow> Processing p \<in> set tr \<or> from_visited_dir (x # w) p"
      using final_files_processing [of p env acc bids_root scan_type n d fs tr] fl False x
      by (auto intro: from_visited_dir_here)
    show ?thesis
    proof (cases r)
      case (Some e)
      with Cons.prems x False fl have "Processing p \<in> set tr1" by simp
      then show ?thesis by (rule tr1)
    next
      case None
      with Cons.prems x False fl
      have "Processing p \<in> set (snd (final_walk env acc bids_root scan_type n w tr1))" by simp
      from Cons.IH [OF this] tr1 show ?thesis by (auto intro: from_visited_dir_Cons)
    qed
  qed
qed

lemma traverse_initial_processing:
  "Processing p \<in> set (snd (traverse_bids_initial env w bids_root scan_type n)) \<Longrightarrow>
   from_visited_dir w p"
proof -
  assume a: "Processing p \<in> set (snd (traverse_bids_initial env w bids_root scan_type n))"
  let ?tr0 = "[LogInfo (''[Initial QC] Starting traversal of '' @ bids_root @ '' for scan type ''
                        @ scan_type @ ''...'')]"
  obtain r tr where iw: "initial_walk env bids_root scan_type n w ?tr0 = (r, tr)"
    by (cases "initial_walk env bids_root scan_type n w ?tr0")
  from a iw have "Processing p \<in> set tr"
    by (cases r) (auto simp: traverse_bids_initial_def)
  with iw have "Processing p \<in> set (snd (initial_walk env bids_root scan_type n w ?tr0))" by simp
  from initial_walk_processing [OF this] show ?thesis by simp
qed

lemma traverse_final_processing:
  "Processing p \<in> set (snd (traverse_bids_final env accepted w bids_root scan_type n)) \<Longrightarrow>
   from_visited_dir w p"
proof -
  assume a: "Processing p \<in> set (snd (traverse_bids_final env accepted w bids_root scan_type n))"
  let ?tr0 = "[LogInfo (''[Final QC] Starting traversal of '' @ bids_root @ '' for scan type ''
                        @ scan_type @ ''...'')]"
  show ?thesis
  proof (cases accepted)
    case (Inl e)
    with a show ?thesis by (simp add: traverse_bids_final_def)
  next
    case (Inr acc)
    obtain r tr where fw: "final_walk env acc bids_root scan_type n w ?tr0 = (r, tr)"
      by (cases "final_walk env acc bids_root scan_type n w ?tr0")
    from a fw Inr have "Processing p \<in> set tr"
      by (cases r) (auto simp: traverse_bids_final_def)
    with fw have "Processing p \<in> set (snd (final_walk env acc bids_root scan_type n w ?tr0))" by simp
    from final_walk_processing [OF this] show ?thesis by simp
  qed
qed


lemma sublist_snoc_other:
  assumes "c \<notin> set xs" "xs \<noteq> []"
  shows "sublist xs (ys @ [c]) \<longleftrightarrow> sublist xs ys"
proof
  assume "sublist xs (ys @ [c])"
  then obtain ps ss where e: "ys @ [c] = ps @ xs @ ss" by (auto simp: sublist_def)
  show "sublist xs ys"
  proof (cases ss rule: rev_cases)
    case Nil
    with e have "ys @ [c] = ps @ xs" by simp
    moreover from assms(2) obtain zs z where "xs = zs @ [z]" by (cases xs rule: rev_cases) auto
    ultimately have "c \<in> set xs" by (metis append_assoc last_snoc last_in_set snoc_eq_iff_butlast)
    with assms(1) show ?thesis by simp
  next
    case (snoc ss' s)
    with e have "ys @ [c] = (ps @ xs @ ss') @ [s]" by simp
    then have "ys = ps @ xs @ ss'" by simp
    then show ?thesis by (auto simp: sublist_def)
  qed
next
  assume "sublist xs ys"
  then obtain ps ss where "ys = ps @ xs @ ss" by (auto simp: sublist_def)
  then have "ys @ [c] = ps @ xs @ (ss @ [c])" by simp
  then show "sublist xs (ys @ [c])" unfolding sublist_def by blast
qed

lemma results_dir_norm: "sublist ''results'' (dir_norm d) \<longleftrightarrow> sublist ''results'' d"
  using sublist_snoc_other [of "CHR ''/''" "''results''" d] by (simp add: dir_norm_def)

lemma join_slash_free:
  assumes "CHR ''/'' \<notin> set f"
  shows "os_path_join d f = dir_norm d @ f"
proof -
  have "\<not> prefix ''/'' f" using assms by (cases f) auto
  then show ?thesis by (simp add: os_path_join_def dir_norm_def)
qed

lemma dir_norm_unique:
  assumes "dir_norm d @ f = dir_norm d' @ f'" "CHR ''/'' \<notin> set f" "CHR ''/'' \<notin> set f'"
  shows "dir_norm d = dir_norm d'"
proof -
  have key: "\<And>x g. CHR ''/'' \<notin> set g \<Longrightarrow>
      rev (dropWhile (\<lambda>c. c \<noteq> CHR ''/'') (rev (dir_norm x @ g))) = dir_norm x"
  proof -
    fix x g assume g: "CHR ''/'' \<notin> set g"
    have a: "dropWhile (\<lambda>c. c \<noteq> CHR ''/'') (rev g @ rev (dir_norm x))
               = dropWhile (\<lambda>c. c \<noteq> CHR ''/'') (rev (dir_norm x))"
      using g by (intro dropWhile_append2) auto
    have b: "dropWhile (\<lambda>c. c \<noteq> CHR ''/'') (rev (dir_norm x)) = rev (dir_norm x)"
    proof (cases "dir_norm x = []")
      case True then show ?thesis by simp
    next
      case False
      then have "suffix ''/'' (dir_norm x)" by (auto simp: dir_norm_def suffix_def)
      then obtain y where "dir_norm x = y @ ''/''" by (auto simp: suffix_def)
      then show ?thesis by simp
    qed
    show "rev (dropWhile (\<lambda>c. c \<noteq> CHR ''/'') (rev (dir_norm x @ g))) = dir_norm x"
      using a b by simp
  qed
  from key [OF assms(2), of d] key [OF assms(3), of d'] assms(1) show ?thesis by simp
qed

lemma results_dir_not_visited:
  assumes "slash_free_walk w" "(d, ds, fs) \<in> set w" "sublist ''results'' d" "f \<in> set fs"
  shows "\<not> from_visited_dir w (os_path_join d f)"
proof
  assume "from_visited_dir w (os_path_join d f)"
  then obtain d' ds' fs' f' where m: "(d', ds', fs') \<in> set w" and nr: "\<not> sublist ''results'' d'"
    and f': "f' \<in> set fs'" and e: "os_path_join d f = os_path_join d' f'"
    by (auto simp: from_visited_dir_def)
  have sf: "CHR ''/'' \<notin> set f" using assms(1,2,4) by (auto simp: slash_free_walk_def)
  have sf': "CHR ''/'' \<notin> set f'" using assms(1) m f' by (auto simp: slash_free_walk_def)
  from e have "dir_norm d @ f = dir_norm d' @ f'" by (simp only: join_slash_free [OF sf] join_slash_free [OF sf'])
  then have "dir_norm d = dir_norm d'" using sf sf' by (rule dir_norm_unique)
  then have "sublist ''results'' d \<longleftrightarrow> sublist ''results'' d'"
    using results_dir_norm [of d] results_dir_norm [of d'] by simp
  with assms(3) nr show False by simp
qed

lemma results_root_nothing_visited:
  assumes "sublist ''results'' bids_root" "rooted_walk bids_root w"
  shows "\<not> from_visited_dir w p"
proof
  assume "from_visited_dir w p"
  then obtain d ds fs where m: "(d, ds, fs) \<in> set w" and nr: "\<not> sublist ''results'' d"
    by (auto simp: from_visited_dir_def)
  from assms(2) m have "prefix bids_root d" by (auto simp: rooted_walk_def)
  then have "sublist bids_root d" by (rule prefix_imp_sublist)
  with assms(1) have "sublist ''results'' d" by (rule sublist_order.order.trans)
  with nr show False by simp
qed

text \<open>
  Claim C10. Both traversals skip a directory when the text \<open>results\<close> occurs anywhere in
  its path. Every file that \<open>traverse_bids_initial\<close> or \<open>traverse_bids_final\<close> processes is the
  join of a directory of the walk whose path does not contain \<open>results\<close> with a file listed
  in it; so no file directly inside a directory whose path contains \<open>results\<close> is processed
  (file names contain no slash), also when that is a data directory; and when the path of
  \<open>bids_root\<close> itself contains \<open>results\<close>, every directory of the walk does, and nothing is
  processed at all.
\<close>

theorem results_directories_skipped:
  "(Processing p \<in> set (snd (traverse_bids_initial env w bids_root scan_type n)) \<longrightarrow>
      from_visited_dir w p) \<and>
   (Processing p \<in> set (snd (traverse_bids_final env accepted w bids_root scan_type n)) \<longrightarrow>
      from_visited_dir w p) \<and>
   (slash_free_walk w \<and> (d, ds, fs) \<in> set w \<and> sublist ''results'' d \<and> f \<in> set fs \<longrightarrow>
      Processing (os_path_join d f) \<notin> set (snd (traverse_bids_initial env w bids_root scan_type n)) \<and>
      Processing (os_path_join d f)
        \<notin> set (snd (traverse_bids_final env accepted w bids_root scan_type n))) \<and>
   (sublist ''results'' bids_root \<and> rooted_walk bids_root w \<longrightarrow>
      Processing p \<notin> set (snd (traverse_bids_initial env w bids_root scan_type n)) \<and>
      Processing p \<notin> set (snd (traverse_bids_final env accepted w bids_root scan_type n)))"
proof (intro conjI impI)
  show "Processing p \<in> set (snd (traverse_bids_initial env w bids_root scan_type n)) \<Longrightarrow>
      from_visited_dir w p"
    by (rule traverse_initial_processing)
  show "Processing p \<in> set (snd (traverse_bids_final env accepted w bids_root scan_type n)) \<Longrightarrow>
      from_visited_dir w p"
    by (rule traverse_final_processing)
next
  assume a: "slash_free_walk w \<and> (d, ds, fs) \<in> set w \<and> sublist ''results'' d \<and> f \<in> set fs"
  then have nv: "\<not> from_visited_dir w (os_path_join d f)"
    using results_dir_not_visited [of w d ds fs f] by blast
  show "Processing (os_path_join d f) \<notin> set (snd (traverse_bids_initial env w bids_root scan_type n))"
    using nv traverse_initial_processing [of "os_path_join d f" env w bids_root scan_type n] by blast
  show "Processing (os_path_join d f)
        \<notin> set (snd (traverse_bids_final env accepted w bids_root scan_type n))"
    using nv traverse_final_processing [of "os_path_join d f" env accepted w bids_root scan_type n]
    by blast
next
  assume a: "sublist ''results'' bids_root \<and> rooted_walk bids_root w"
  then have nv: "\<not> from_visited_dir w p"
    using results_root_nothing_visited [of bids_root w p] by blast
  show "Processing p \<notin> set (snd (traverse_bids_initial env w bids_root scan_type n))"
    using nv traverse_initial_processing [of p env w bids_root scan_type n] by blast
  show "Processing p \<notin> set (snd (traverse_bids_final env accepted w bids_root scan_type n))"
    using nv traverse_final_processing [of p env accepted w bids_root scan_type n] by blast
qed

theorem results_directories_skipped_witness:
  "(''/data/sub-2_results'', [], [''sub-2_T1w.nii'']) \<in> set example_walk \<and>
   sublist ''results'' ''/data/sub-2_results'' \<and>
   is_scan_file ''T1w'' ''sub-2_T1w.nii'' \<and>
   os_path_join ''/data/sub-2_results'' ''sub-2_T1w.nii'' = ''/data/sub-2_results/sub-2_T1w.nii'' \<and>
   Processing ''/data/sub-2_results/sub-2_T1w.nii''
     \<notin> set (snd (traverse_bids_initial unloadable_env example_walk ''/data'' ''T1w'' 3)) \<and>
   Processing ''/data/sub-2_results/sub-2_T1w.nii''
     \<notin> set (snd (traverse_bids_final unloadable_env (Inr [(''sub-2'', ''ses-01'')]) example_walk
                    ''/data'' ''T1w'' 3))"
proof -
  have h1: "slash_free_walk example_walk"
    by (simp add: slash_free_walk_def example_walk_def)
  have h2: "(''/data/sub-2_results'', [], [''sub-2_T1w.nii'']) \<in> set example_walk"
    by (simp add: example_walk_def)
  have h3: "sublist ''results'' ''/data/sub-2_results''"
    by (simp add: sublist_Cons_right)
  have h4: "''sub-2_T1w.nii'' \<in> set [''sub-2_T1w.nii'']" by simp
  have h5: "is_scan_file ''T1w'' ''sub-2_T1w.nii''"
    by (simp add: is_scan_file_def suffix_to_prefix sublist_Cons_right)
  have j: "os_path_join ''/data/sub-2_results'' ''sub-2_T1w.nii'' = ''/data/sub-2_results/sub-2_T1w.nii''"
    by (simp add: os_path_join_def suffix_to_prefix)
  from results_directories_skipped [of _ unloadable_env example_walk "''/data''" "''T1w''" 3
      "Inr [(''sub-2'', ''ses-01'')]" "''/data/sub-2_results''" "[]" "[''sub-2_T1w.nii'']"
      "''sub-2_T1w.nii''"] h1 h2 h3 h4
  have "Processing (os_path_join ''/data/sub-2_results'' ''sub-2_T1w.nii'')
          \<notin> set (snd (traverse_bids_initial unloadable_env example_walk ''/data'' ''T1w'' 3)) \<and>
        Processing (os_path_join ''/data/sub-2_results'' ''sub-2_T1w.nii'')
          \<notin> set (snd (traverse_bids_final unloadable_env (Inr [(''sub-2'', ''ses-01'')]) example_walk
                    ''/data'' ''T1w'' 3))"
    by blast
  then have "Processing ''/data/sub-2_results/sub-2_T1w.nii''
          \<notin> set (snd (traverse_bids_initial unloadable_env example_walk ''/data'' ''T1w'' 3)) \<and>
        Processing ''/data/sub-2_results/sub-2_T1w.nii''
          \<notin> set (snd (traverse_bids_final unloadable_env (Inr [(''sub-2'', ''ses-01'')]) example_walk
                    ''/data'' ''T1w'' 3))"
    unfolding j .
  with h2 h3 h5 j show ?thesis by (intro conjI) simp_all
qed

end
